theory Spec2Isabelle
  imports Main
begin

section \<open>Data model\<close>

text \<open>
  The controller of \<^verbatim>\<open>src/main.py\<close> keeps an undirected graph of the graph library
  (\<^verbatim>\<open>networkx.Graph\<close>), a dictionary of flow tables and a list of active flows.
  Node identifiers are strings (the command line reads them with \<^verbatim>\<open>input\<close>),
  bandwidths and priorities are Python integers.
\<close>

type_synonym node_id = string
type_synonym path = "node_id list"

text \<open>The attribute dictionary of an edge: \<^verbatim>\<open>bandwidth\<close>, \<^verbatim>\<open>utilization\<close>, \<^verbatim>\<open>available\<close>.\<close>

record link =
  bandwidth :: int
  utilization :: int
  available :: bool

text \<open>
  The library graph. \<open>g_nodes\<close> is the node dictionary: a registered node is mapped to
  its \<^verbatim>\<open>type\<close> attribute, \<open>None\<close> when the node has no such attribute. \<open>g_links\<close> holds
  one entry per undirected edge, in the order in which the edges were first inserted; the
  attribute dictionary of an edge is a single object reached from both endpoints, so it is
  stored once. The library iterates over the neighbours of a node in the order in which
  its edges were first inserted, and edges are never deleted by the controller, so the
  neighbour order of every node is the order of its edges in \<open>g_links\<close>.
\<close>

type_synonym links = "((node_id \<times> node_id) \<times> link) list"

record graph =
  g_nodes :: "node_id \<rightharpoonup> string option"
  g_links :: links

text \<open>The value stored in a flow table: \<^verbatim>\<open>{"action": "forward", "path": p}\<close>.\<close>

record action =
  act :: string
  act_path :: path

text \<open>An entry of \<^verbatim>\<open>active_flows\<close>.\<close>

record flow =
  f_id :: string
  f_src :: node_id
  f_dst :: node_id
  primary_path :: path
  backup_path :: "path option"
  f_bandwidth :: int
  f_priority :: int

text \<open>
  The controller object. \<open>flow_tables\<close> is a \<^verbatim>\<open>defaultdict(dict)\<close>: a switch without
  entries has the empty dictionary. \<open>stdout\<close> collects what the core prints. The fields
  \<^verbatim>\<open>link_utilization\<close> (never read or written after construction) and \<^verbatim>\<open>watermark\<close>
  (a constant digest) take no part in any operation and are left out.
\<close>

record controller =
  topology :: graph
  flow_tables :: "node_id \<Rightarrow> string \<rightharpoonup> action"
  active_flows :: "flow list"
  stdout :: "string list"

text \<open>The exceptions that the modelled code can raise.\<close>

datatype error = NodeNotFound | NetworkXNoPath | KeyError | ValueError

definition init :: controller where
  "init = \<lparr>topology = \<lparr>g_nodes = Map.empty, g_links = []\<rparr>,
           flow_tables = (\<lambda>_. Map.empty), active_flows = [], stdout = []\<rparr>"

section \<open>The graph library\<close>

text \<open>\<^verbatim>\<open>G[u][v]\<close>: the attribute dictionary of the edge between \<open>u\<close> and \<open>v\<close>, in either
  orientation; \<open>None\<close> stands for the \<^verbatim>\<open>KeyError\<close> of a missing edge.\<close>

fun get_link :: "links \<Rightarrow> node_id \<Rightarrow> node_id \<Rightarrow> link option" where
  "get_link [] u v = None"
| "get_link ((e, d) # ls) u v =
     (if e = (u, v) \<or> e = (v, u) then Some d else get_link ls u v)"

text \<open>In-place update of the attribute dictionary of an existing edge.\<close>

fun upd_link :: "(link \<Rightarrow> link) \<Rightarrow> node_id \<Rightarrow> node_id \<Rightarrow> links \<Rightarrow> links" where
  "upd_link f u v [] = []"
| "upd_link f u v ((e, d) # ls) =
     (if e = (u, v) \<or> e = (v, u) then (e, f d) # ls else (e, d) # upd_link f u v ls)"

text \<open>\<^verbatim>\<open>G.add_node(n, type=t)\<close>: registers the node, or overwrites the attribute of an
  existing one.\<close>

definition nx_add_node :: "graph \<Rightarrow> node_id \<Rightarrow> string \<Rightarrow> graph" where
  "nx_add_node g n t = g\<lparr>g_nodes := (g_nodes g)(n \<mapsto> Some t)\<rparr>"

text \<open>
  \<^verbatim>\<open>G.add_edge(u, v, bandwidth=bw, utilization=0, available=True)\<close>: an endpoint that is
  not yet a node is registered with an empty attribute dictionary; the three attributes
  are written into the edge's dictionary, which is created at the end of the neighbour
  order when the edge is new and keeps its place otherwise.
\<close>

definition touch_node :: "node_id \<Rightarrow> (node_id \<rightharpoonup> string option) \<Rightarrow> (node_id \<rightharpoonup> string option)" where
  "touch_node n ns = (case ns n of None \<Rightarrow> ns(n \<mapsto> None) | Some a \<Rightarrow> ns)"

definition nx_add_edge :: "graph \<Rightarrow> node_id \<Rightarrow> node_id \<Rightarrow> int \<Rightarrow> graph" where
  "nx_add_edge g u v bw =
     (let d = \<lparr>bandwidth = bw, utilization = 0, available = True\<rparr>
      in \<lparr>g_nodes = touch_node v (touch_node u (g_nodes g)),
          g_links = (case get_link (g_links g) u v of
                       None \<Rightarrow> g_links g @ [((u, v), d)]
                     | Some old \<Rightarrow> upd_link (\<lambda>_. d) u v (g_links g))\<rparr>)"

definition nx_has_edge :: "graph \<Rightarrow> node_id \<Rightarrow> node_id \<Rightarrow> bool" where
  "nx_has_edge g u v = (get_link (g_links g) u v \<noteq> None)"

text \<open>The neighbours of a node in the whole graph, in iteration order.\<close>

fun nbrs :: "links \<Rightarrow> node_id \<Rightarrow> node_id list" where
  "nbrs [] u = []"
| "nbrs (((a, b), d) # ls) u =
     (if a = u then b # nbrs ls u else if b = u then a # nbrs ls u else nbrs ls u)"

text \<open>
  \<^verbatim>\<open>G.edge_subgraph(edges)\<close> is a filtered view: it shows the nodes that are an endpoint
  of a listed edge and the edges listed in either orientation; the neighbours of a node of
  the view are those of the whole graph, in the same order, that pass both filters.
  (Asking the view for the neighbours of a node that it does not show raises
  \<^verbatim>\<open>KeyError\<close>; the search below only asks for the source, after it has checked it, and
  for nodes that it obtained as neighbours in the view.)
\<close>

definition node_ok :: "(node_id \<times> node_id) list \<Rightarrow> node_id \<Rightarrow> bool" where
  "node_ok es n = (n \<in> set (map fst es) \<or> n \<in> set (map snd es))"

definition edge_ok :: "(node_id \<times> node_id) list \<Rightarrow> node_id \<Rightarrow> node_id \<Rightarrow> bool" where
  "edge_ok es u v = ((u, v) \<in> set es \<or> (v, u) \<in> set es)"

definition sub_adj :: "graph \<Rightarrow> (node_id \<times> node_id) list \<Rightarrow> node_id \<Rightarrow> node_id list" where
  "sub_adj g es v = filter (\<lambda>w. node_ok es w \<and> edge_ok es v w) (nbrs (g_links g) v)"

text \<open>\<^verbatim>\<open>G.edges(data=True)\<close> reports every edge once; only the set of the reported
  pairs is used below, so the entries are taken in their stored order.\<close>

definition nx_edges :: "graph \<Rightarrow> ((node_id \<times> node_id) \<times> link) list" where
  "nx_edges g = g_links g"

subsection \<open>Breadth-first predecessors\<close>

text \<open>
  \<^verbatim>\<open>networkx.predecessor(G, source)\<close> keeps two dictionaries with the same keys,
  \<^verbatim>\<open>seen\<close> (the level of a node) and \<^verbatim>\<open>pred\<close> (its predecessors on the previous
  level, in the order found); they are one table here. For a neighbour \<open>w\<close> of a node \<open>v\<close>
  of the current level the loop body is
  \<^verbatim>\<open>
  if w not in seen:
      pred[w] = [v]; seen[w] = level; nextlevel.append(w)
  elif seen[w] == level:
      pred[w].append(v)
  \<close>
\<close>

type_synonym bfs_table = "node_id \<rightharpoonup> nat \<times> node_id list"

fun visit :: "nat \<Rightarrow> node_id \<Rightarrow> node_id \<Rightarrow> bfs_table \<times> node_id list \<Rightarrow> bfs_table \<times> node_id list" where
  "visit level v w (tab, nextlevel) =
     (case tab w of
        None \<Rightarrow> (tab(w \<mapsto> (level, [v])), nextlevel @ [w])
      | Some (l, ps) \<Rightarrow>
          if l = level then (tab(w \<mapsto> (l, ps @ [v])), nextlevel) else (tab, nextlevel))"

definition expand :: "(node_id \<Rightarrow> node_id list) \<Rightarrow> nat \<Rightarrow> node_id list \<Rightarrow>
    bfs_table \<times> node_id list \<Rightarrow> bfs_table \<times> node_id list" where
  "expand adj level thislevel st = fold (\<lambda>v. fold (visit level v) (adj v)) thislevel st"

text \<open>All endpoints of stored edges: the nodes a search can ever meet.\<close>

definition endpoints :: "links \<Rightarrow> node_id set" where
  "endpoints ls = fst ` fst ` set ls \<union> snd ` fst ` set ls"

text \<open>The search only ever meets endpoints of stored edges, and every pass of the loop
  that finds a new node shrinks the set of endpoints not yet in the table.\<close>

lemma nbrs_endpoints: "w \<in> set (nbrs ls v) \<Longrightarrow> w \<in> endpoints ls"
  by (induction ls v rule: nbrs.induct) (auto simp: endpoints_def split: if_splits)

lemma sub_adj_endpoints: "w \<in> set (sub_adj g es v) \<Longrightarrow> w \<in> endpoints (g_links g)"
  by (auto simp: sub_adj_def dest: nbrs_endpoints)

definition frontier_inv :: "node_id set \<Rightarrow> node_id set \<Rightarrow> bfs_table \<times> node_id list \<Rightarrow> bool" where
  "frontier_inv V D st = (dom (fst st) = D \<union> set (snd st) \<and> set (snd st) \<subseteq> V - D)"

lemma visit_frontier_inv:
  "frontier_inv V D st \<Longrightarrow> w \<in> V \<Longrightarrow> frontier_inv V D (visit level v w st)"
  by (cases st) (auto simp: frontier_inv_def split: option.splits if_splits)

lemma fold_visit_frontier_inv:
  "frontier_inv V D st \<Longrightarrow> set ws \<subseteq> V \<Longrightarrow> frontier_inv V D (fold (visit level v) ws st)"
  by (induction ws arbitrary: st) (auto simp: visit_frontier_inv)

lemma expand_frontier_inv:
  "frontier_inv V D st \<Longrightarrow> (\<And>v. set (adj v) \<subseteq> V) \<Longrightarrow> frontier_inv V D (expand adj level vs st)"
  unfolding expand_def
  by (induction vs arbitrary: st) (auto simp: fold_visit_frontier_inv)

text \<open>
  \<^verbatim>\<open>
  while nextlevel:
      level = level + 1
      thislevel = nextlevel; nextlevel = []
      for v in thislevel:
          for w in G[v]: ...
  \<close>
\<close>

function predecessor_loop :: "graph \<Rightarrow> (node_id \<times> node_id) list \<Rightarrow> nat \<Rightarrow>
    bfs_table \<times> node_id list \<Rightarrow> bfs_table" where
  "predecessor_loop g es level (tab, nextlevel) =
     (if nextlevel = [] then tab
      else predecessor_loop g es (level + 1)
             (expand (sub_adj g es) (level + 1) nextlevel (tab, [])))"
  by pat_completeness auto
termination
proof (relation "measure (\<lambda>(g, es, level, st).
          2 * card (endpoints (g_links g) - dom (fst st)) + (if snd st = [] then 0 else 1))",
       goal_cases)
  case 1
  show ?case by simp
next
  case (2 g es level tab nextlevel)
  let ?V = "endpoints (g_links g)"
  let ?st = "expand (sub_adj g es) (level + 1) nextlevel (tab, [])"
  have fin: "finite ?V" by (simp add: endpoints_def)
  have "frontier_inv ?V (dom tab) (tab, [])" by (simp add: frontier_inv_def)
  then have inv: "frontier_inv ?V (dom tab) ?st"
    by (rule expand_frontier_inv) (auto dest: sub_adj_endpoints)
  show ?case
  proof (cases "snd ?st = []")
    case True
    with inv have "dom (fst ?st) = dom tab" by (simp add: frontier_inv_def)
    with True 2 show ?thesis by simp
  next
    case False
    then obtain x where x: "x \<in> set (snd ?st)" by (cases "snd ?st") auto
    with inv have "x \<in> ?V - dom tab" "x \<in> dom (fst ?st)" "dom tab \<subseteq> dom (fst ?st)"
      by (auto simp: frontier_inv_def)
    then have "?V - dom (fst ?st) \<subset> ?V - dom tab" by blast
    with fin have "card (?V - dom (fst ?st)) < card (?V - dom tab)"
      by (intro psubset_card_mono) auto
    with 2 show ?thesis by simp
  qed
qed

declare predecessor_loop.simps [simp del]

text \<open>\<^verbatim>\<open>networkx.predecessor(G, source)\<close>: a source that is not a node of the view raises
  \<^verbatim>\<open>NodeNotFound\<close>; otherwise the loop starts from
  \<^verbatim>\<open>seen = {source: 0}\<close>, \<^verbatim>\<open>pred = {source: []}\<close>, \<^verbatim>\<open>nextlevel = [source]\<close>.\<close>

definition nx_predecessor :: "graph \<Rightarrow> (node_id \<times> node_id) list \<Rightarrow> node_id \<Rightarrow> error + bfs_table" where
  "nx_predecessor g es source =
     (if \<not> node_ok es source then Inl NodeNotFound
      else Inr (predecessor_loop g es 0 ([source \<mapsto> (0, [])], [source])))"

subsection \<open>All shortest paths\<close>

text \<open>
  The library walks the predecessor lists depth-first from the target, each list in its
  stored order, and yields the reversed stack whenever it stands on the source. A node of
  level \<open>l\<close> has its predecessors on level \<open>l - 1\<close>, so the walk from a node is a recursion
  on its level.
\<close>

fun build_paths :: "nat \<Rightarrow> bfs_table \<Rightarrow> node_id \<Rightarrow> node_id \<Rightarrow> path list" where
  "build_paths 0 tab source node = (if node = source then [[node]] else [])"
| "build_paths (Suc k) tab source node =
     (if node = source then [[node]] else []) @
     concat (map (\<lambda>p. map (\<lambda>q. q @ [node]) (build_paths k tab source p))
                 (case tab node of None \<Rightarrow> [] | Some (l, ps) \<Rightarrow> ps))"

text \<open>\<^verbatim>\<open>networkx.all_shortest_paths(G, source, target)\<close> without weights: a target that
  the search did not reach raises \<^verbatim>\<open>NetworkXNoPath\<close>.\<close>

definition nx_all_shortest_paths ::
    "graph \<Rightarrow> (node_id \<times> node_id) list \<Rightarrow> node_id \<Rightarrow> node_id \<Rightarrow> error + path list" where
  "nx_all_shortest_paths g es source target =
     (case nx_predecessor g es source of
        Inl e \<Rightarrow> Inl e
      | Inr tab \<Rightarrow>
          (case tab target of
             None \<Rightarrow> Inl NetworkXNoPath
           | Some (l, ps) \<Rightarrow> Inr (build_paths l tab source target)))"

section \<open>Python built-ins\<close>

text \<open>\<^verbatim>\<open>min(xs, key=f)\<close>: the key of every element is computed in order, an element
  replaces the current best only when its key is strictly smaller, and an empty argument
  raises \<^verbatim>\<open>ValueError\<close>.\<close>

fun min_loop :: "('a \<Rightarrow> error + int) \<Rightarrow> 'a \<Rightarrow> int \<Rightarrow> 'a list \<Rightarrow> error + 'a" where
  "min_loop f best bk [] = Inr best"
| "min_loop f best bk (y # ys) =
     (case f y of
        Inl e \<Rightarrow> Inl e
      | Inr k \<Rightarrow> if k < bk then min_loop f y k ys else min_loop f best bk ys)"

fun py_min :: "('a \<Rightarrow> error + int) \<Rightarrow> 'a list \<Rightarrow> error + 'a" where
  "py_min f [] = Inl ValueError"
| "py_min f (x # xs) = (case f x of Inl e \<Rightarrow> Inl e | Inr k \<Rightarrow> min_loop f x k xs)"

text \<open>The decimal text of a natural number, as an f-string prints a list length.\<close>

definition digit :: "nat \<Rightarrow> char" where
  "digit n = char_of (48 + n)"

fun str_nat :: "nat \<Rightarrow> string" where
  "str_nat n = (if n < 10 then [digit n] else str_nat (n div 10) @ [digit (n mod 10)])"

declare str_nat.simps [simp del]

section \<open>The controller\<close>

definition add_node :: "controller \<Rightarrow> node_id \<Rightarrow> string \<Rightarrow> controller" where
  "add_node s node_id node_type = s\<lparr>topology := nx_add_node (topology s) node_id node_type\<rparr>"

definition add_link :: "controller \<Rightarrow> node_id \<Rightarrow> node_id \<Rightarrow> int \<Rightarrow> controller" where
  "add_link s node1 node2 bw = s\<lparr>topology := nx_add_edge (topology s) node1 node2 bw\<rparr>"

definition set_available :: "bool \<Rightarrow> graph \<Rightarrow> node_id \<Rightarrow> node_id \<Rightarrow> graph" where
  "set_available b g u v = g\<lparr>g_links := upd_link (\<lambda>d. d\<lparr>available := b\<rparr>) u v (g_links g)\<rparr>"

definition remove_link :: "controller \<Rightarrow> node_id \<Rightarrow> node_id \<Rightarrow> controller" where
  "remove_link s node1 node2 =
     (if nx_has_edge (topology s) node1 node2
      then s\<lparr>topology := set_available False (topology s) node1 node2\<rparr> else s)"

definition restore_link :: "controller \<Rightarrow> node_id \<Rightarrow> node_id \<Rightarrow> controller" where
  "restore_link s node1 node2 =
     (if nx_has_edge (topology s) node1 node2
      then s\<lparr>topology := set_available True (topology s) node1 node2\<rparr> else s)"

text \<open>\<^verbatim>\<open>_path_utilization\<close>: the running total over the consecutive pairs of the path.\<close>

fun utilization_loop :: "graph \<Rightarrow> int \<Rightarrow> path \<Rightarrow> error + int" where
  "utilization_loop g tot (u # v # rest) =
     (case get_link (g_links g) u v of
        None \<Rightarrow> Inl KeyError
      | Some d \<Rightarrow> utilization_loop g (tot + utilization d) (v # rest))"
| "utilization_loop g tot p = Inr tot"

definition path_utilization :: "controller \<Rightarrow> path \<Rightarrow> error + int" where
  "path_utilization s p = utilization_loop (topology s) 0 p"

definition available_edges :: "graph \<Rightarrow> (node_id \<times> node_id) list" where
  "available_edges g = map fst (filter (\<lambda>(e, d). available d) (nx_edges g))"

text \<open>\<^verbatim>\<open>compute_paths\<close>: only \<^verbatim>\<open>NetworkXNoPath\<close> is caught; every other exception leaves
  the function.\<close>

definition compute_paths :: "controller \<Rightarrow> node_id \<Rightarrow> node_id \<Rightarrow> int \<Rightarrow> error + path list" where
  "compute_paths s src dst priority =
     (case nx_all_shortest_paths (topology s) (available_edges (topology s)) src dst of
        Inl NetworkXNoPath \<Rightarrow> Inr []
      | Inl e \<Rightarrow> Inl e
      | Inr all_paths \<Rightarrow>
          if priority > 0
          then (case py_min (path_utilization s) all_paths of
                  Inl NetworkXNoPath \<Rightarrow> Inr []
                | Inl e \<Rightarrow> Inl e
                | Inr p \<Rightarrow> Inr [p])
          else Inr (take 2 all_paths))"

definition install_flow :: "controller \<Rightarrow> node_id \<Rightarrow> string \<Rightarrow> action \<Rightarrow> controller" where
  "install_flow s switch_id fl a =
     s\<lparr>flow_tables := (flow_tables s)(switch_id := ((flow_tables s) switch_id)(fl \<mapsto> a))\<rparr>"

text \<open>The utilization loop of \<^verbatim>\<open>inject_flow\<close>. A missing edge raises \<^verbatim>\<open>KeyError\<close> after
  the earlier pairs have been updated, so the graph reached so far is returned with the
  error.\<close>

fun add_utilization :: "graph \<Rightarrow> int \<Rightarrow> path \<Rightarrow> error option \<times> graph" where
  "add_utilization g bw (u # v # rest) =
     (case get_link (g_links g) u v of
        None \<Rightarrow> (Some KeyError, g)
      | Some d \<Rightarrow>
          add_utilization
            (g\<lparr>g_links := upd_link (\<lambda>d. d\<lparr>utilization := utilization d + bw\<rparr>) u v (g_links g)\<rparr>)
            bw (v # rest))"
| "add_utilization g bw p = (None, g)"

definition install_path :: "string \<Rightarrow> path \<Rightarrow> controller \<Rightarrow> controller" where
  "install_path flow_id p s =
     fold (\<lambda>switch s. install_flow s switch flow_id \<lparr>act = ''forward'', act_path = p\<rparr>)
          (butlast (tl p)) s"

definition flow_name :: "node_id \<Rightarrow> node_id \<Rightarrow> nat \<Rightarrow> string" where
  "flow_name src dst n = src @ ''-'' @ dst @ ''-'' @ str_nat n"

text \<open>\<^verbatim>\<open>inject_flow\<close> returns the outcome (an exception, \<^verbatim>\<open>None\<close> or the flow identifier)
  together with the controller as the call leaves it.\<close>

definition inject_flow :: "controller \<Rightarrow> node_id \<Rightarrow> node_id \<Rightarrow> int \<Rightarrow> int \<Rightarrow>
    (error + string option) \<times> controller" where
  "inject_flow s src dst priority bw =
     (case compute_paths s src dst priority of
        Inl e \<Rightarrow> (Inl e, s)
      | Inr [] \<Rightarrow> (Inr None, s\<lparr>stdout := stdout s @ [''No available path!'']\<rparr>)
      | Inr (primary # others) \<Rightarrow>
          (let backup = (if priority > 1 \<and> length (primary # others) > 1
                         then Some ((primary # others) ! 1) else None)
           in case add_utilization (topology s) bw primary of
                (Some e, g) \<Rightarrow> (Inl e, s\<lparr>topology := g\<rparr>)
              | (None, g) \<Rightarrow>
                  (let s1 = s\<lparr>topology := g\<rparr>;
                       flow_id = flow_name src dst (length (active_flows s1));
                       s2 = install_path flow_id primary s1;
                       s3 = (case backup of
                               None \<Rightarrow> s2
                             | Some b \<Rightarrow> if b \<noteq> [] then install_path flow_id b s2 else s2)
                   in (Inr (Some flow_id),
                       s3\<lparr>active_flows := active_flows s3 @
                            [\<lparr>f_id = flow_id, f_src = src, f_dst = dst, primary_path = primary,
                              backup_path = backup, f_bandwidth = bw, f_priority = priority\<rparr>]\<rparr>))))"

text \<open>The operations a caller can apply to the controller, and the controller after a
  sequence of them (an exception is seen by the caller; the controller stays as the call
  left it).\<close>

datatype op =
    AddNode node_id string
  | AddLink node_id node_id int
  | RemoveLink node_id node_id
  | RestoreLink node_id node_id
  | InjectFlow node_id node_id int int

fun apply_op :: "op \<Rightarrow> controller \<Rightarrow> controller" where
  "apply_op (AddNode n t) s = add_node s n t"
| "apply_op (AddLink a b bw) s = add_link s a b bw"
| "apply_op (RemoveLink a b) s = remove_link s a b"
| "apply_op (RestoreLink a b) s = restore_link s a b"
| "apply_op (InjectFlow src dst priority bw) s = snd (inject_flow s src dst priority bw)"

definition run :: "op list \<Rightarrow> controller" where
  "run ops = fold apply_op ops init"

text \<open>The topology that the program builds before it starts its command loop.\<close>

definition example :: controller where
  "example = run [AddNode ''s1'' ''switch'', AddNode ''s2'' ''switch'', AddNode ''s3'' ''switch'',
                  AddNode ''s4'' ''switch'', AddNode ''h1'' ''switch'', AddNode ''h2'' ''switch'',
                  AddLink ''s1'' ''s2'' 100, AddLink ''s1'' ''s3'' 100, AddLink ''s2'' ''s4'' 100,
                  AddLink ''s3'' ''s4'' 100, AddLink ''h1'' ''s1'' 100, AddLink ''h2'' ''s4'' 100]"

section \<open>Specification vocabulary\<close>

text \<open>Walks of an adjacency function from a start node, the nodes first reached after
  a given number of steps, and the conditions that the search loop maintains.\<close>

inductive walk :: "(node_id \<Rightarrow> node_id list) \<Rightarrow> node_id \<Rightarrow> path \<Rightarrow> bool" for N s where
  walk_base: "walk N s [s]"
| walk_step: "walk N s p \<Longrightarrow> w \<in> set (N (last p)) \<Longrightarrow> walk N s (p @ [w])"

definition reach_in :: "(node_id \<Rightarrow> node_id list) \<Rightarrow> node_id \<Rightarrow> nat \<Rightarrow> node_id \<Rightarrow> bool" where
  "reach_in N s k w = (\<exists>p. walk N s p \<and> last p = w \<and> length p = Suc k)"

definition level_set :: "(node_id \<Rightarrow> node_id list) \<Rightarrow> node_id \<Rightarrow> nat \<Rightarrow> node_id set" where
  "level_set N s k = {w. reach_in N s k w \<and> (\<forall>j<k. \<not> reach_in N s j w)}"

text \<open>
  The pairs that one pass of the loop visits, in order, the table that the pass leaves,
  the predecessors that a node of a level must get, and the loop invariant: the frontier
  is the current level, the table holds the nodes of the levels so far, each with its
  level and its predecessors.
\<close>

definition visits :: "(node_id \<Rightarrow> node_id list) \<Rightarrow> node_id list \<Rightarrow> (node_id \<times> node_id) list" where
  "visits adj vs = concat (map (\<lambda>v. map (Pair v) (adj v)) vs)"

definition visited_tab :: "bfs_table \<Rightarrow> nat \<Rightarrow> (node_id \<times> node_id) list \<Rightarrow> bfs_table" where
  "visited_tab tab0 lev prs w =
     (if w \<in> dom tab0 then tab0 w
      else if w \<in> snd ` set prs then Some (lev, map fst (filter (\<lambda>p. snd p = w) prs))
      else None)"

definition pred_set :: "(node_id \<Rightarrow> node_id list) \<Rightarrow> node_id \<Rightarrow> nat \<Rightarrow> node_id \<Rightarrow> node_id set" where
  "pred_set N s l w = (case l of 0 \<Rightarrow> {} | Suc k \<Rightarrow> {v \<in> level_set N s k. w \<in> set (N v)})"

definition bfs_inv :: "(node_id \<Rightarrow> node_id list) \<Rightarrow> node_id \<Rightarrow> nat \<Rightarrow> bfs_table \<Rightarrow> node_id list \<Rightarrow> bool" where
  "bfs_inv N s L tab fr \<longleftrightarrow>
     set fr = level_set N s L \<and>
     dom tab = (\<Union>k\<le>L. level_set N s k) \<and>
     (\<forall>w l ps. tab w = Some (l, ps) \<longrightarrow> w \<in> level_set N s l \<and> set ps = pred_set N s l w)"

definition bfs_done :: "(node_id \<Rightarrow> node_id list) \<Rightarrow> node_id \<Rightarrow> bfs_table \<Rightarrow> bool" where
  "bfs_done N s tab \<longleftrightarrow>
     dom tab = (\<Union>k. level_set N s k) \<and>
     (\<forall>w l ps. tab w = Some (l, ps) \<longrightarrow> w \<in> level_set N s l \<and> set ps = pred_set N s l w)"

text \<open>
  The library keeps one attribute dictionary per undirected edge. A stored list of links
  is well formed when no two of its entries are for the same unordered pair of nodes;
  the initial controller has such a list and every operation keeps it so (\<open>wf_run\<close>
  below).
\<close>

fun wf_links :: "links \<Rightarrow> bool" where
  "wf_links [] = True"
| "wf_links ((e, d) # ls) = (get_link ls (fst e) (snd e) = None \<and> wf_links ls)"

text \<open>
  The live subgraph: \<open>live_link g u v\<close> says that the link between \<open>u\<close> and \<open>v\<close> is stored
  and its \<^verbatim>\<open>available\<close> flag is true; \<open>in_live g v\<close> that \<open>v\<close> is an endpoint of an
  available link; \<open>live_path g p\<close> that \<open>p\<close> is a path of the live subgraph (a single node
  of it, or nodes joined consecutively by available links). A path connects \<open>src\<close> and
  \<open>dst\<close> when it starts at the one and ends at the other, and it is shortest when no
  connecting path has fewer nodes, that is, fewer hops.
\<close>

definition live_link :: "graph \<Rightarrow> node_id \<Rightarrow> node_id \<Rightarrow> bool" where
  "live_link g u v = (case get_link (g_links g) u v of None \<Rightarrow> False | Some d \<Rightarrow> available d)"

definition in_live :: "graph \<Rightarrow> node_id \<Rightarrow> bool" where
  "in_live g v = node_ok (available_edges g) v"

fun live_path :: "graph \<Rightarrow> path \<Rightarrow> bool" where
  "live_path g [] = False"
| "live_path g [v] = in_live g v"
| "live_path g (u # v # rest) = (live_link g u v \<and> live_path g (v # rest))"

definition connects :: "graph \<Rightarrow> node_id \<Rightarrow> node_id \<Rightarrow> path \<Rightarrow> bool" where
  "connects g src dst p = (live_path g p \<and> hd p = src \<and> last p = dst)"

definition shortest_path :: "graph \<Rightarrow> node_id \<Rightarrow> node_id \<Rightarrow> path \<Rightarrow> bool" where
  "shortest_path g src dst p =
     (connects g src dst p \<and> (\<forall>q. connects g src dst q \<longrightarrow> length p \<le> length q))"

text \<open>
  The total utilization of a path, stated without the code: the sum, over the pairs of
  consecutive nodes of the path, of the \<^verbatim>\<open>utilization\<close> stored for the link between them.
\<close>

definition link_utilization :: "graph \<Rightarrow> node_id \<Rightarrow> node_id \<Rightarrow> int" where
  "link_utilization g u v =
     (case get_link (g_links g) u v of None \<Rightarrow> 0 | Some d \<Rightarrow> utilization d)"

definition total_utilization :: "graph \<Rightarrow> path \<Rightarrow> int" where
  "total_utilization g p = (\<Sum>(u, v)\<leftarrow>zip p (tl p). link_utilization g u v)"

text \<open>The same graph with every utilization replaced.\<close>

definition with_utilization :: "(node_id \<times> node_id \<Rightarrow> int) \<Rightarrow> graph \<Rightarrow> graph" where
  "with_utilization u g =
     g\<lparr>g_links := map (\<lambda>(e, d). (e, d\<lparr>utilization := u e\<rparr>)) (g_links g)\<rparr>"

text \<open>Reading a decimal text back, the text after the last dash of a string, the record
  that a successful injection appends, and the conditions that hold for the flow list and
  the flow tables after any sequence of operations.\<close>

definition nat_of_str :: "string \<Rightarrow> nat" where
  "nat_of_str s = foldl (\<lambda>a c. 10 * a + (of_char c - 48)) 0 s"

definition last_field :: "string \<Rightarrow> string" where
  "last_field s = rev (takeWhile (\<lambda>c. c \<noteq> CHR ''-'') (rev s))"

definition new_flow :: "controller \<Rightarrow> node_id \<Rightarrow> node_id \<Rightarrow> int \<Rightarrow> int \<Rightarrow> path \<Rightarrow> path list \<Rightarrow> flow" where
  "new_flow s src dst priority bw primary others =
     \<lparr>f_id = flow_name src dst (length (active_flows s)), f_src = src, f_dst = dst,
      primary_path = primary,
      backup_path = (if priority > 1 \<and> others \<noteq> [] then Some (hd others) else None),
      f_bandwidth = bw, f_priority = priority\<rparr>"

definition ids_indexed :: "controller \<Rightarrow> bool" where
  "ids_indexed s \<longleftrightarrow>
     (\<forall>i<length (active_flows s).
        f_id (active_flows s ! i) =
          flow_name (f_src (active_flows s ! i)) (f_dst (active_flows s ! i)) i)"

definition keys_indexed :: "controller \<Rightarrow> bool" where
  "keys_indexed s \<longleftrightarrow>
     (\<forall>sw fl a. flow_tables s sw fl = Some a \<longrightarrow>
        (\<exists>i<length (active_flows s). \<exists>x y. fl = flow_name x y i))"

definition flow_shape :: "flow \<Rightarrow> bool" where
  "flow_shape f \<longleftrightarrow>
     primary_path f \<noteq> [] \<and> hd (primary_path f) = f_src f \<and> last (primary_path f) = f_dst f \<and>
     (f_src f \<noteq> f_dst f \<longrightarrow> 2 \<le> length (primary_path f)) \<and>
     (f_src f = f_dst f \<longrightarrow> primary_path f = [f_src f]) \<and>
     (\<forall>b. backup_path f = Some b \<longrightarrow>
        b \<noteq> [] \<and> hd b = f_src f \<and> last b = f_dst f \<and>
        (f_src f \<noteq> f_dst f \<longrightarrow> 2 \<le> length b) \<and>
        (f_src f = f_dst f \<longrightarrow> b = [f_src f]))"

fun injected :: "controller \<Rightarrow> op list \<Rightarrow> nat" where
  "injected s [] = 0"
| "injected s (x # xs) =
     (case x of
        InjectFlow src dst priority bw \<Rightarrow>
          (case fst (inject_flow s src dst priority bw) of
             Inr (Some flow_id) \<Rightarrow> 1
           | _ \<Rightarrow> 0)
      | _ \<Rightarrow> 0) + injected (apply_op x s) xs"

definition flows_inv :: "controller \<Rightarrow> bool" where
  "flows_inv s \<longleftrightarrow> ids_indexed s \<and> keys_indexed s \<and> (\<forall>f\<in>set (active_flows s). flow_shape f)"

definition session :: "op list" where
  "session = [AddLink ''s1'' ''s2'' 100, AddLink ''s1'' ''s3'' 100, AddLink ''s2'' ''s4'' 100,
              AddLink ''s3'' ''s4'' 100, AddLink ''h1'' ''s1'' 100, AddLink ''h2'' ''s4'' 100,
              InjectFlow ''h1'' ''h2'' 0 10, InjectFlow ''h9'' ''h2'' 0 10,
              InjectFlow ''h1'' ''h2'' 1 5]"

definition self_session :: "op list" where
  "self_session = session @ [InjectFlow ''s1'' ''s1'' 0 10]"

section \<open>Correctness of the shortest-path search\<close>

text \<open>Levels: the nodes at distance \<open>k + 1\<close> are the unseen neighbours of the nodes at
  distance \<open>k\<close>.\<close>

lemma walk_nonempty: "walk N s p \<Longrightarrow> p \<noteq> []"
  by (induction rule: walk.induct) auto

lemma walk_hd: "walk N s p \<Longrightarrow> hd p = s"
  by (induction rule: walk.induct) (auto simp: walk_nonempty)

lemma walk_snoc_iff:
  "walk N s (p @ [w]) \<longleftrightarrow> (p = [] \<and> w = s) \<or> (walk N s p \<and> w \<in> set (N (last p)))"
  by (auto elim: walk.cases intro: walk.intros)

lemma reach_in_0: "reach_in N s 0 w \<longleftrightarrow> w = s"
proof
  assume "reach_in N s 0 w"
  then obtain p where p: "walk N s p" "last p = w" "length p = 1" by (auto simp: reach_in_def)
  then obtain x where "p = [x]" by (cases p) auto
  with p walk_hd[OF p(1)] show "w = s" by auto
next
  assume "w = s" then show "reach_in N s 0 w"
    unfolding reach_in_def by (intro exI[of _ "[s]"]) (auto intro: walk.intros)
qed

lemma reach_in_Suc: "reach_in N s (Suc k) w \<longleftrightarrow> (\<exists>v. reach_in N s k v \<and> w \<in> set (N v))"
proof
  assume "reach_in N s (Suc k) w"
  then obtain p where p: "walk N s p" "last p = w" "length p = Suc (Suc k)"
    by (auto simp: reach_in_def)
  then obtain q x where q: "p = q @ [x]" by (cases p rule: rev_cases) auto
  with p have "q \<noteq> []" "x = w" by auto
  with p q have "walk N s q" "w \<in> set (N (last q))" "length q = Suc k"
    by (auto simp: walk_snoc_iff)
  then show "\<exists>v. reach_in N s k v \<and> w \<in> set (N v)" unfolding reach_in_def by blast
next
  assume "\<exists>v. reach_in N s k v \<and> w \<in> set (N v)"
  then obtain p where "walk N s p" "length p = Suc k" "w \<in> set (N (last p))"
    by (auto simp: reach_in_def)
  then show "reach_in N s (Suc k) w"
    unfolding reach_in_def by (intro exI[of _ "p @ [w]"]) (auto intro: walk.intros)
qed

lemma level_set_0: "level_set N s 0 = {s}"
  by (auto simp: level_set_def reach_in_0)

lemma level_set_disjoint: "w \<in> level_set N s k \<Longrightarrow> w \<in> level_set N s j \<Longrightarrow> j = k"
  unfolding level_set_def by (metis (mono_tags, lifting) mem_Collect_eq nat_neq_iff)

lemma reach_in_level: "reach_in N s k w \<Longrightarrow> \<exists>j\<le>k. w \<in> level_set N s j"
proof (induction k rule: less_induct)
  case (less k)
  show ?case
  proof (cases "\<forall>j<k. \<not> reach_in N s j w")
    case True
    with less.prems show ?thesis unfolding level_set_def by auto
  next
    case False
    then obtain j where "j < k" "reach_in N s j w" by auto
    with less.IH[of j] show ?thesis by (meson le_trans less_imp_le_nat)
  qed
qed

lemma level_set_Suc:
  "level_set N s (Suc k) = (\<Union>v\<in>level_set N s k. set (N v)) - (\<Union>j\<le>k. level_set N s j)"
proof (intro set_eqI iffI)
  fix w assume w: "w \<in> level_set N s (Suc k)"
  then obtain v where v: "reach_in N s k v" "w \<in> set (N v)"
    by (auto simp: level_set_def reach_in_Suc)
  have "\<not> reach_in N s j v" if "j < k" for j
  proof
    assume "reach_in N s j v"
    with v have "reach_in N s (Suc j) w" by (auto simp: reach_in_Suc)
    with w that show False by (auto simp: level_set_def)
  qed
  with v have "v \<in> level_set N s k" by (auto simp: level_set_def)
  moreover have "w \<notin> level_set N s j" if "j \<le> k" for j
    using w that level_set_disjoint[of w N s "Suc k" j] by auto
  ultimately show "w \<in> (\<Union>v\<in>level_set N s k. set (N v)) - (\<Union>j\<le>k. level_set N s j)"
    using v by auto
next
  fix w assume a: "w \<in> (\<Union>v\<in>level_set N s k. set (N v)) - (\<Union>j\<le>k. level_set N s j)"
  then obtain v where v: "v \<in> level_set N s k" "w \<in> set (N v)" by auto
  then have r: "reach_in N s (Suc k) w" by (auto simp: level_set_def reach_in_Suc)
  have "\<not> reach_in N s j w" if "j < Suc k" for j
  proof
    assume "reach_in N s j w"
    then obtain i where "i \<le> j" "w \<in> level_set N s i" using reach_in_level by blast
    with that a show False by auto
  qed
  with r show "w \<in> level_set N s (Suc k)" by (auto simp: level_set_def)
qed

lemma level_set_empty_mono: "level_set N s k = {} \<Longrightarrow> k \<le> j \<Longrightarrow> level_set N s j = {}"
proof (induction j)
  case 0 then show ?case by simp
next
  case (Suc j)
  show ?case
  proof (cases "k = Suc j")
    case True with Suc show ?thesis by simp
  next
    case False
    with Suc have "level_set N s j = {}" by simp
    then show ?thesis by (simp add: level_set_Suc)
  qed
qed

text \<open>One pass of the loop, as a fold over the visited pairs.\<close>

lemma fold_visit_pairs:
  "fold (visit lev v) ws st = fold (\<lambda>(v, w). visit lev v w) (map (Pair v) ws) st"
  by (induction ws arbitrary: st) auto

lemma expand_visits: "expand adj lev vs st = fold (\<lambda>(v, w). visit lev v w) (visits adj vs) st"
  unfolding expand_def visits_def
  by (induction vs arbitrary: st) (auto simp: fold_visit_pairs)

lemma set_visits: "set (visits adj vs) = {(v, w). v \<in> set vs \<and> w \<in> set (adj v)}"
  by (auto simp: visits_def)

lemma visited_tab_snoc_other:
  "u \<noteq> w \<Longrightarrow> visited_tab tab0 lev (prs @ [(v, w)]) u = visited_tab tab0 lev prs u"
  by (simp add: visited_tab_def)

lemma visited_tab_snoc_new:
  "w \<notin> dom tab0 \<Longrightarrow> visited_tab tab0 lev (prs @ [(v, w)]) w =
     Some (lev, map fst (filter (\<lambda>p. snd p = w) prs) @ [v])"
  by (simp add: visited_tab_def)

lemma visited_tab_snoc_old:
  "w \<in> dom tab0 \<Longrightarrow> visited_tab tab0 lev (prs @ [(v, w)]) w = tab0 w"
  by (simp add: visited_tab_def)

lemma visited_tab_None:
  "visited_tab tab0 lev prs w = None \<Longrightarrow> w \<notin> dom tab0 \<and> w \<notin> snd ` set prs"
  by (auto simp: visited_tab_def split: if_splits)

lemma filter_snd_empty: "w \<notin> snd ` set prs \<Longrightarrow> filter (\<lambda>p. snd p = w) prs = []"
  by (auto simp: filter_empty_conv)

lemma fold_visits_char:
  assumes old: "\<forall>w l ps. tab0 w = Some (l, ps) \<longrightarrow> l \<noteq> lev"
  shows "fst (fold (\<lambda>(v, w). visit lev v w) prs (tab0, [])) = visited_tab tab0 lev prs \<and>
         set (snd (fold (\<lambda>(v, w). visit lev v w) prs (tab0, []))) = snd ` set prs - dom tab0"
proof (induction prs rule: rev_induct)
  case Nil
  have "\<And>w. w \<notin> dom tab0 \<Longrightarrow> tab0 w = None" by blast
  then have "visited_tab tab0 lev [] = tab0" by (intro ext) (simp add: visited_tab_def)
  then show ?case by simp
next
  case (snoc x prs)
  obtain v w where x: "x = (v, w)" by (cases x)
  obtain tab nxt where st: "fold (\<lambda>(v, w). visit lev v w) prs (tab0, []) = (tab, nxt)"
    by (cases "fold (\<lambda>(v, w). visit lev v w) prs (tab0, [])")
  from snoc st have tab: "tab = visited_tab tab0 lev prs"
    and nxt: "set nxt = snd ` set prs - dom tab0" by auto
  have step: "fold (\<lambda>(v, w). visit lev v w) (prs @ [x]) (tab0, []) = visit lev v w (tab, nxt)"
    by (simp add: st x)
  show ?case
  proof (cases "tab w")
    case None
    with tab have w: "w \<notin> dom tab0" "w \<notin> snd ` set prs"
      using visited_tab_None by auto
    have res: "visit lev v w (tab, nxt) = (tab(w \<mapsto> (lev, [v])), nxt @ [w])"
      using None by simp
    have "(tab(w \<mapsto> (lev, [v]))) u = visited_tab tab0 lev (prs @ [(v, w)]) u" for u
    proof (cases "u = w")
      case True
      then show ?thesis
        using visited_tab_snoc_new[OF w(1)] filter_snd_empty[OF w(2)] by simp
    next
      case False
      then show ?thesis by (simp add: visited_tab_snoc_other tab)
    qed
    then have "tab(w \<mapsto> (lev, [v])) = visited_tab tab0 lev (prs @ [(v, w)])" by (intro ext)
    moreover have "set (nxt @ [w]) = snd ` set (prs @ [(v, w)]) - dom tab0"
      using nxt w by auto
    ultimately show ?thesis unfolding step res by (simp add: x)
  next
    case (Some a)
    obtain l ps where a: "a = (l, ps)" by (cases a)
    show ?thesis
    proof (cases "w \<in> dom tab0")
      case True
      with Some a tab have "tab0 w = Some (l, ps)" by (simp add: visited_tab_def)
      with old have "l \<noteq> lev" by blast
      then have res: "visit lev v w (tab, nxt) = (tab, nxt)" using Some a by simp
      have "tab u = visited_tab tab0 lev (prs @ [(v, w)]) u" for u
      proof (cases "u = w")
        case True
        then show ?thesis using \<open>w \<in> dom tab0\<close> by (simp add: tab visited_tab_def)
      next
        case False
        then show ?thesis by (simp add: visited_tab_snoc_other tab)
      qed
      then have "tab = visited_tab tab0 lev (prs @ [(v, w)])" by (intro ext)
      moreover have "set nxt = snd ` set (prs @ [(v, w)]) - dom tab0"
        using nxt True by auto
      ultimately show ?thesis unfolding step res by (simp add: x)
    next
      case False
      with Some a tab have w: "w \<in> snd ` set prs" "l = lev"
        "ps = map fst (filter (\<lambda>p. snd p = w) prs)"
        by (auto simp: visited_tab_def split: if_splits)
      have res: "visit lev v w (tab, nxt) = (tab(w \<mapsto> (lev, ps @ [v])), nxt)"
        using Some a w(2) by simp
      have "(tab(w \<mapsto> (lev, ps @ [v]))) u = visited_tab tab0 lev (prs @ [(v, w)]) u" for u
      proof (cases "u = w")
        case True
        then show ?thesis using visited_tab_snoc_new[OF False] w(3) by simp
      next
        case False
        then show ?thesis by (simp add: visited_tab_snoc_other tab)
      qed
      then have "tab(w \<mapsto> (lev, ps @ [v])) = visited_tab tab0 lev (prs @ [(v, w)])"
        by (intro ext)
      moreover have "set nxt = snd ` set (prs @ [(v, w)]) - dom tab0"
        using nxt w(1) by auto
      ultimately show ?thesis unfolding step res by (simp add: x)
    qed
  qed
qed

text \<open>The loop keeps its invariant and ends with the table of all reachable nodes.\<close>

lemma bfs_inv_init: "bfs_inv N s 0 [s \<mapsto> (0, [])] [s]"
  by (auto simp: bfs_inv_def level_set_0 pred_set_def split: if_splits)

lemma bfs_inv_level_le:
  assumes "bfs_inv N s L tab fr" "tab w = Some (l, ps)"
  shows "l \<le> L"
proof -
  from assms have "w \<in> level_set N s l" "w \<in> (\<Union>k\<le>L. level_set N s k)"
    by (auto simp: bfs_inv_def)
  then show ?thesis using level_set_disjoint by blast
qed

lemma bfs_inv_step:
  assumes inv: "bfs_inv N s L tab fr"
  shows "bfs_inv N s (Suc L) (fst (expand N (Suc L) fr (tab, []))) (snd (expand N (Suc L) fr (tab, [])))"
proof -
  let ?prs = "visits N fr"
  let ?st = "fold (\<lambda>(v, w). visit (Suc L) v w) ?prs (tab, [])"
  have fr: "set fr = level_set N s L"
    and domtab: "dom tab = (\<Union>k\<le>L. level_set N s k)"
    and tabs: "\<And>w l ps. tab w = Some (l, ps) \<Longrightarrow> w \<in> level_set N s l \<and> set ps = pred_set N s l w"
    using inv unfolding bfs_inv_def by blast+
  have old: "\<forall>w l ps. tab w = Some (l, ps) \<longrightarrow> l \<noteq> Suc L"
    using bfs_inv_level_le[OF inv] by fastforce
  note ch = fold_visits_char[OF old, where prs = ?prs]
  have tab': "fst ?st = visited_tab tab (Suc L) ?prs" using ch by simp
  have nxt': "set (snd ?st) = snd ` set ?prs - dom tab" using ch by simp
  have sndprs: "snd ` set ?prs = (\<Union>v\<in>level_set N s L. set (N v))"
    unfolding set_visits fr by force
  have new: "snd ` set ?prs - dom tab = level_set N s (Suc L)"
    unfolding sndprs domtab level_set_Suc by (rule refl)
  have a: "set (snd ?st) = level_set N s (Suc L)" using nxt' new by simp
  have "dom (visited_tab tab (Suc L) ?prs) = dom tab \<union> (snd ` set ?prs - dom tab)"
  proof (intro set_eqI)
    fix w show "w \<in> dom (visited_tab tab (Suc L) ?prs) \<longleftrightarrow> w \<in> dom tab \<union> (snd ` set ?prs - dom tab)"
      by (cases "w \<in> dom tab"; cases "w \<in> snd ` set ?prs") (simp_all add: visited_tab_def domIff)
  qed
  then have "dom (fst ?st) = dom tab \<union> level_set N s (Suc L)"
    unfolding tab' new .
  then have b: "dom (fst ?st) = (\<Union>k\<le>Suc L. level_set N s k)"
    unfolding domtab by (simp add: atMost_Suc Un_commute)
  have c: "w \<in> level_set N s l \<and> set ps = pred_set N s l w" if "fst ?st w = Some (l, ps)" for w l ps
  proof (cases "w \<in> dom tab")
    case True
    with that have "tab w = Some (l, ps)" by (simp add: tab' visited_tab_def)
    then show ?thesis by (rule tabs)
  next
    case False
    with that have w: "w \<in> snd ` set ?prs" "l = Suc L"
      "ps = map fst (filter (\<lambda>p. snd p = w) ?prs)"
      by (auto simp: tab' visited_tab_def split: if_splits)
    from w(1) False new have "w \<in> level_set N s (Suc L)" by blast
    moreover have "set ps = {v. (v, w) \<in> set ?prs}" unfolding w(3) by force
    then have "set ps = {v \<in> level_set N s L. w \<in> set (N v)}"
      unfolding set_visits fr by simp
    ultimately show ?thesis by (simp add: w(2) pred_set_def)
  qed
  show ?thesis unfolding expand_visits bfs_inv_def
  proof (intro conjI allI impI)
    show "set (snd ?st) = level_set N s (Suc L)" by (rule a)
    show "dom (fst ?st) = (\<Union>k\<le>Suc L. level_set N s k)" by (rule b)
  next
    fix w l ps assume "fst ?st w = Some (l, ps)"
    then show "w \<in> level_set N s l" "set ps = pred_set N s l w" using c by blast+
  qed
qed

lemma predecessor_loop_done:
  "bfs_inv (sub_adj g es) s L tab fr \<Longrightarrow> bfs_done (sub_adj g es) s (predecessor_loop g es L (tab, fr))"
proof (induction g es L "(tab, fr)" arbitrary: tab fr rule: predecessor_loop.induct)
  case (1 g es level tab nextlevel)
  show ?case
  proof (cases "nextlevel = []")
    case True
    with 1(2) have e: "level_set (sub_adj g es) s level = {}" by (simp add: bfs_inv_def)
    have "(\<Union>k. level_set (sub_adj g es) s k) = (\<Union>k\<le>level. level_set (sub_adj g es) s k)"
    proof -
      have "level_set (sub_adj g es) s k = {}" if "\<not> k \<le> level" for k
        using level_set_empty_mono[OF e, of k] that by simp
      then show ?thesis by blast
    qed
    with 1(2) True show ?thesis
      by (simp add: bfs_inv_def bfs_done_def predecessor_loop.simps[of g es level tab "[]"])
  next
    case False
    obtain tab' fr' where st: "expand (sub_adj g es) (level + 1) nextlevel (tab, []) = (tab', fr')"
      by (cases "expand (sub_adj g es) (level + 1) nextlevel (tab, [])")
    from bfs_inv_step[OF 1(2)] st have "bfs_inv (sub_adj g es) s (level + 1) tab' fr'" by simp
    from 1(1)[OF False st this] False st show ?thesis
      by (simp add: predecessor_loop.simps[of g es level tab nextlevel])
  qed
qed

text \<open>The paths read off the table for a node of level \<open>l\<close> are the walks with
  \<open>l\<close> steps that end in it.\<close>

lemma level_set_pred:
  assumes t: "t \<in> level_set N s (Suc l)" and v: "reach_in N s l v" and e: "t \<in> set (N v)"
  shows "v \<in> level_set N s l"
proof -
  have "\<not> reach_in N s j v" if "j < l" for j
  proof
    assume "reach_in N s j v"
    with e have "reach_in N s (Suc j) t" by (auto simp: reach_in_Suc)
    with t that show False by (auto simp: level_set_def)
  qed
  with v show ?thesis by (simp add: level_set_def)
qed

lemma bfs_done_lookup:
  assumes d: "bfs_done N s tab" and t: "t \<in> level_set N s l"
  shows "\<exists>ps. tab t = Some (l, ps) \<and> set ps = pred_set N s l t"
proof -
  from d t have "t \<in> dom tab" unfolding bfs_done_def by blast
  then obtain l' ps where tt: "tab t = Some (l', ps)" by fastforce
  with d have "t \<in> level_set N s l'" "set ps = pred_set N s l' t"
    unfolding bfs_done_def by blast+
  with t level_set_disjoint[of t N s l l'] tt show ?thesis by auto
qed

lemma build_paths_correct:
  "bfs_done N s tab \<Longrightarrow> t \<in> level_set N s l \<Longrightarrow>
   set (build_paths l tab s t) = {p. walk N s p \<and> last p = t \<and> length p = Suc l}"
proof (induction l arbitrary: t)
  case 0
  then have ts: "t = s" by (simp add: level_set_0)
  have "p = [s]" if "walk N s p" "length p = Suc 0" for p
  proof -
    from that obtain x where "p = [x]" by (cases p) auto
    with walk_hd[OF that(1)] show ?thesis by simp
  qed
  then show ?case by (auto simp: ts intro: walk.intros)
next
  case (Suc l)
  from bfs_done_lookup[OF Suc.prems] obtain ps where
    tab: "tab t = Some (Suc l, ps)" and ps: "set ps = {v \<in> level_set N s l. t \<in> set (N v)}"
    by (auto simp: pred_set_def)
  have "t \<noteq> s" using Suc.prems(2) level_set_disjoint[of s N s 0 "Suc l"]
    by (auto simp: level_set_0)
  then have bp: "set (build_paths (Suc l) tab s t) =
      (\<Union>v\<in>set ps. (\<lambda>q. q @ [t]) ` set (build_paths l tab s v))"
    by (simp add: tab)
  have ih: "set (build_paths l tab s v) = {p. walk N s p \<and> last p = v \<and> length p = Suc l}"
    if "v \<in> set ps" for v
    using Suc.IH[OF Suc.prems(1), of v] that ps by simp
  show ?case
  proof (intro set_eqI iffI)
    fix p assume "p \<in> set (build_paths (Suc l) tab s t)"
    then obtain v q where v: "v \<in> set ps" and q: "q \<in> set (build_paths l tab s v)"
      and p: "p = q @ [t]" unfolding bp by blast
    from ih[OF v] q have "walk N s q" "last q = v" "length q = Suc l" by auto
    moreover from v ps have "t \<in> set (N v)" by simp
    ultimately show "p \<in> {p. walk N s p \<and> last p = t \<and> length p = Suc (Suc l)}"
      by (auto simp: p intro: walk.intros)
  next
    fix p assume "p \<in> {p. walk N s p \<and> last p = t \<and> length p = Suc (Suc l)}"
    then have w: "walk N s p" "last p = t" "length p = Suc (Suc l)" by auto
    then obtain q x where pq: "p = q @ [x]" by (cases p rule: rev_cases) auto
    with w have x: "x = t" and qn: "q \<noteq> []" and ql: "length q = Suc l" by auto
    with w pq have wq: "walk N s q" and e: "t \<in> set (N (last q))"
      by (auto simp: walk_snoc_iff)
    from wq ql have "reach_in N s l (last q)" unfolding reach_in_def by blast
    from level_set_pred[OF Suc.prems(2) this e] e ps have v: "last q \<in> set ps" by simp
    from ih[OF v] wq ql have "q \<in> set (build_paths l tab s (last q))" by simp
    with v show "p \<in> set (build_paths (Suc l) tab s t)" unfolding bp pq x by blast
  qed
qed

lemma walk_min_length:
  assumes t: "t \<in> level_set N s l" and w: "walk N s p" "last p = t"
  shows "Suc l \<le> length p"
proof -
  from walk_nonempty[OF w(1)] obtain k where k: "length p = Suc k" by (cases p) auto
  with w have "reach_in N s k t" unfolding reach_in_def by blast
  with t have "\<not> k < l" by (auto simp: level_set_def)
  with k show ?thesis by simp
qed

lemma reachable_level:
  assumes "walk N s p" "last p = t"
  shows "\<exists>l. t \<in> level_set N s l"
proof -
  from walk_nonempty[OF assms(1)] obtain k where k: "length p = Suc k" by (cases p) auto
  with assms have "reach_in N s k t" unfolding reach_in_def by blast
  from reach_in_level[OF this] show ?thesis by blast
qed

lemma level_set_walk: "t \<in> level_set N s l \<Longrightarrow> \<exists>p. walk N s p \<and> last p = t \<and> length p = Suc l"
  by (auto simp: level_set_def reach_in_def)

lemma nx_predecessor_done:
  "node_ok es s \<Longrightarrow> \<exists>tab. nx_predecessor g es s = Inr tab \<and> bfs_done (sub_adj g es) s tab"
  unfolding nx_predecessor_def using predecessor_loop_done[OF bfs_inv_init] by simp

lemma all_shortest_paths_not_found:
  "\<not> node_ok es s \<Longrightarrow> nx_all_shortest_paths g es s t = Inl NodeNotFound"
  by (simp add: nx_all_shortest_paths_def nx_predecessor_def)

lemma all_shortest_paths_no_path:
  assumes "node_ok es s" "\<And>p. walk (sub_adj g es) s p \<Longrightarrow> last p \<noteq> t"
  shows "nx_all_shortest_paths g es s t = Inl NetworkXNoPath"
proof -
  from nx_predecessor_done[OF assms(1)] obtain tab where
    tab: "nx_predecessor g es s = Inr tab" "bfs_done (sub_adj g es) s tab" by blast
  have "tab t = None"
  proof (rule ccontr)
    assume "tab t \<noteq> None"
    then have "t \<in> dom tab" by blast
    with tab(2) obtain l where "t \<in> level_set (sub_adj g es) s l" unfolding bfs_done_def by blast
    from level_set_walk[OF this] assms(2) show False by blast
  qed
  with tab show ?thesis by (simp add: nx_all_shortest_paths_def)
qed

lemma all_shortest_paths_found:
  assumes "node_ok es s" "t \<in> level_set (sub_adj g es) s l"
  shows "\<exists>ps. nx_all_shortest_paths g es s t = Inr ps \<and>
           set ps = {p. walk (sub_adj g es) s p \<and> last p = t \<and> length p = Suc l}"
proof -
  from nx_predecessor_done[OF assms(1)] obtain tab where
    tab: "nx_predecessor g es s = Inr tab" "bfs_done (sub_adj g es) s tab" by blast
  from bfs_done_lookup[OF tab(2) assms(2)] obtain ps where "tab t = Some (l, ps)" by blast
  with tab build_paths_correct[OF tab(2) assms(2)] show ?thesis
    by (simp add: nx_all_shortest_paths_def)
qed

text \<open>From the adjacency of the filtered view to the links of the graph.\<close>

lemma get_link_sym: "get_link ls u v = get_link ls v u"
  by (induction ls u v rule: get_link.induct) auto

lemma get_link_None_iff:
  "get_link ls u v = None \<longleftrightarrow> (\<forall>d. ((u, v), d) \<notin> set ls \<and> ((v, u), d) \<notin> set ls)"
  by (induction ls u v rule: get_link.induct) auto

lemma wf_links_get:
  "wf_links ls \<Longrightarrow> ((a, b), d) \<in> set ls \<Longrightarrow> get_link ls a b = Some d"
proof (induction ls)
  case Nil then show ?case by simp
next
  case (Cons x ls)
  obtain e d0 where x: "x = (e, d0)" by (cases x)
  from Cons.prems x have none: "get_link ls (fst e) (snd e) = None" and wf: "wf_links ls" by auto
  show ?case
  proof (cases "((a, b), d) \<in> set ls")
    case True
    from Cons.IH[OF wf True] have g: "get_link ls a b = Some d" .
    have "e \<noteq> (a, b) \<and> e \<noteq> (b, a)"
    proof (rule ccontr)
      assume "\<not> (e \<noteq> (a, b) \<and> e \<noteq> (b, a))"
      then have "get_link ls (fst e) (snd e) = get_link ls a b"
        using get_link_sym[of ls a b] by auto
      with none g show False by simp
    qed
    with g show ?thesis by (simp add: x)
  next
    case False
    with Cons.prems(2) x have "e = (a, b)" "d0 = d" by auto
    then show ?thesis by (simp add: x)
  qed
qed

lemma get_link_Some_mem:
  "get_link ls u v = Some d \<Longrightarrow> ((u, v), d) \<in> set ls \<or> ((v, u), d) \<in> set ls"
  by (induction ls u v rule: get_link.induct) (auto split: if_splits)

lemma nbrs_iff: "w \<in> set (nbrs ls v) \<longleftrightarrow> get_link ls v w \<noteq> None"
  by (induction ls v rule: nbrs.induct) auto

lemma mem_available_edges:
  "(a, b) \<in> set (available_edges g) \<longleftrightarrow> (\<exists>d. ((a, b), d) \<in> set (g_links g) \<and> available d)"
  by (force simp: available_edges_def nx_edges_def)

lemma edge_ok_live:
  assumes "wf_links (g_links g)"
  shows "edge_ok (available_edges g) u v \<longleftrightarrow> live_link g u v"
proof
  assume "edge_ok (available_edges g) u v"
  then consider d where "((u, v), d) \<in> set (g_links g)" "available d"
    | d where "((v, u), d) \<in> set (g_links g)" "available d"
    unfolding edge_ok_def mem_available_edges by blast
  then show "live_link g u v"
  proof cases
    case 1
    from wf_links_get[OF assms 1(1)] 1(2) show ?thesis by (simp add: live_link_def)
  next
    case 2
    from wf_links_get[OF assms 2(1)] 2(2) show ?thesis
      by (simp add: live_link_def get_link_sym[of _ u v])
  qed
next
  assume "live_link g u v"
  then obtain d where "get_link (g_links g) u v = Some d" "available d"
    by (auto simp: live_link_def split: option.splits)
  with get_link_Some_mem[OF this(1)] show "edge_ok (available_edges g) u v"
    unfolding edge_ok_def mem_available_edges by blast
qed

lemma edge_ok_node_ok: "edge_ok es u v \<Longrightarrow> node_ok es u \<and> node_ok es v"
  by (force simp: edge_ok_def node_ok_def)

lemma sub_adj_live:
  assumes "wf_links (g_links g)"
  shows "w \<in> set (sub_adj g (available_edges g) v) \<longleftrightarrow> live_link g v w"
proof -
  have "live_link g v w \<Longrightarrow> get_link (g_links g) v w \<noteq> None"
    by (auto simp: live_link_def split: option.splits)
  then show ?thesis
    using edge_ok_live[OF assms, of v w] edge_ok_node_ok[of "available_edges g" v w]
    by (auto simp: sub_adj_def nbrs_iff)
qed

lemma live_link_sym: "live_link g u v = live_link g v u"
  by (simp add: live_link_def get_link_sym[of _ u v])

lemma live_link_in_live:
  "wf_links (g_links g) \<Longrightarrow> live_link g u v \<Longrightarrow> in_live g u \<and> in_live g v"
  using edge_ok_live[of g u v] edge_ok_node_ok[of "available_edges g" u v]
  by (simp add: in_live_def)

lemma live_path_snoc:
  assumes wf: "wf_links (g_links g)"
  shows "live_path g (p @ [w]) =
           (if p = [] then in_live g w else live_path g p \<and> live_link g (last p) w)"
proof (induction p rule: induct_list012)
  case 1 then show ?case by simp
next
  case (2 v)
  then show ?case using live_link_in_live[OF wf, of v w] by auto
next
  case (3 u v rest)
  then show ?case by simp
qed

lemma live_path_nth:
  "live_path g p \<Longrightarrow> Suc i < length p \<Longrightarrow> live_link g (p ! i) (p ! Suc i)"
proof (induction p arbitrary: i rule: induct_list012)
  case 1 then show ?case by simp
next
  case (2 v) then show ?case by simp
next
  case (3 u v rest)
  then show ?case by (cases i) auto
qed

lemma walk_live_path:
  assumes wf: "wf_links (g_links g)"
  shows "walk (sub_adj g (available_edges g)) s p \<and> in_live g s \<longleftrightarrow> live_path g p \<and> hd p = s"
proof
  assume a: "walk (sub_adj g (available_edges g)) s p \<and> in_live g s"
  then have "walk (sub_adj g (available_edges g)) s p" and s: "in_live g s" by auto
  then have "live_path g p"
  proof (induction rule: walk.induct)
    case walk_base then show ?case by simp
  next
    case (walk_step p w)
    then show ?case
      using walk_nonempty[OF walk_step.hyps(1)] sub_adj_live[OF wf, of w "last p"]
      by (simp add: live_path_snoc[OF wf])
  qed
  with a walk_hd show "live_path g p \<and> hd p = s" by blast
next
  assume "live_path g p \<and> hd p = s"
  then have "live_path g p" "hd p = s" by auto
  then have "walk (sub_adj g (available_edges g)) s p"
  proof (induction p rule: rev_induct)
    case Nil then show ?case by simp
  next
    case (snoc w q)
    show ?case
    proof (cases "q = []")
      case True
      with snoc.prems show ?thesis by (auto intro: walk.intros)
    next
      case False
      with snoc.prems have "live_path g q" "live_link g (last q) w" "hd q = s"
        by (auto simp: live_path_snoc[OF wf])
      with snoc.IH sub_adj_live[OF wf, of w "last q"] show ?thesis
        by (auto intro: walk.intros)
    qed
  qed
  moreover have "in_live g s"
  proof (cases p rule: list.exhaust)
    case Nil with \<open>live_path g p\<close> show ?thesis by simp
  next
    case (Cons x xs)
    show ?thesis
    proof (cases xs)
      case Nil
      with Cons \<open>live_path g p\<close> \<open>hd p = s\<close> show ?thesis by simp
    next
      case (Cons y ys)
      with \<open>p = x # xs\<close> \<open>live_path g p\<close> \<open>hd p = s\<close> have "live_link g s y" by simp
      with live_link_in_live[OF wf] show ?thesis by blast
    qed
  qed
  ultimately show "walk (sub_adj g (available_edges g)) s p \<and> in_live g s" by blast
qed

lemma connects_iff_walk:
  assumes wf: "wf_links (g_links g)"
  shows "connects g s t p \<longleftrightarrow> in_live g s \<and> walk (sub_adj g (available_edges g)) s p \<and> last p = t"
  unfolding connects_def using walk_live_path[OF wf, of s p] by blast

lemma all_shortest_paths_spec:
  assumes wf: "wf_links (g_links g)"
  shows "(\<not> in_live g s \<and> nx_all_shortest_paths g (available_edges g) s t = Inl NodeNotFound) \<or>
         (in_live g s \<and> (\<forall>p. \<not> connects g s t p) \<and>
            nx_all_shortest_paths g (available_edges g) s t = Inl NetworkXNoPath) \<or>
         (\<exists>ps. nx_all_shortest_paths g (available_edges g) s t = Inr ps \<and> ps \<noteq> [] \<and>
            set ps = {p. shortest_path g s t p})"
proof (cases "in_live g s")
  case False
  then show ?thesis by (simp add: all_shortest_paths_not_found in_live_def)
next
  case True
  let ?N = "sub_adj g (available_edges g)"
  show ?thesis
  proof (cases "\<exists>p. connects g s t p")
    case False
    then have "\<And>p. walk ?N s p \<Longrightarrow> last p \<noteq> t"
      using connects_iff_walk[OF wf] True by blast
    from all_shortest_paths_no_path[OF _ this] True False show ?thesis
      by (simp add: in_live_def)
  next
    case c: True
    then obtain p where "walk ?N s p" "last p = t" using connects_iff_walk[OF wf] by blast
    from reachable_level[OF this] obtain l where l: "t \<in> level_set ?N s l" by blast
    from all_shortest_paths_found[OF _ l] True obtain ps where
      ps: "nx_all_shortest_paths g (available_edges g) s t = Inr ps"
          "set ps = {p. walk ?N s p \<and> last p = t \<and> length p = Suc l}"
      by (auto simp: in_live_def)
    have "shortest_path g s t p \<longleftrightarrow> walk ?N s p \<and> last p = t \<and> length p = Suc l" for p
    proof
      assume sp: "shortest_path g s t p"
      then have w: "walk ?N s p" "last p = t"
        unfolding shortest_path_def using connects_iff_walk[OF wf] by blast+
      from level_set_walk[OF l] obtain q where q: "walk ?N s q" "last q = t" "length q = Suc l"
        by blast
      then have "connects g s t q" using connects_iff_walk[OF wf] True by blast
      with sp q have "length p \<le> Suc l" unfolding shortest_path_def by auto
      with walk_min_length[OF l w] w show "walk ?N s p \<and> last p = t \<and> length p = Suc l" by simp
    next
      assume a: "walk ?N s p \<and> last p = t \<and> length p = Suc l"
      then have "connects g s t p" using connects_iff_walk[OF wf] True by blast
      moreover have "length p \<le> length q" if "connects g s t q" for q
      proof -
        from that have "walk ?N s q" "last q = t" using connects_iff_walk[OF wf] by blast+
        from walk_min_length[OF l this] a show ?thesis by simp
      qed
      ultimately show "shortest_path g s t p" unfolding shortest_path_def by blast
    qed
    with ps(2) have "set ps = {p. shortest_path g s t p}" by simp
    moreover from level_set_walk[OF l] ps(2) have "ps \<noteq> []" by auto
    ultimately show ?thesis using ps(1) by blast
  qed
qed

section \<open>Path selection\<close>

text \<open>\<^verbatim>\<open>min\<close> returns the first element of least key.\<close>

lemma min_loop_split:
  assumes "f best = Inr bk"
    "\<forall>y\<in>set pre. \<exists>k. f y = Inr k \<and> bk < k"
    "\<forall>y\<in>set mid. \<exists>k. f y = Inr k \<and> bk \<le> k"
    "\<forall>y\<in>set ys. \<exists>k. f y = Inr k"
  shows "\<exists>r kr pre' post'. min_loop f best bk ys = Inr r \<and> f r = Inr kr \<and>
           pre @ best # mid @ ys = pre' @ r # post' \<and>
           (\<forall>y\<in>set pre'. \<exists>k. f y = Inr k \<and> kr < k) \<and>
           (\<forall>y\<in>set post'. \<exists>k. f y = Inr k \<and> kr \<le> k)"
  using assms
proof (induction ys arbitrary: best bk pre mid)
  case Nil
  then show ?case by (intro exI[of _ best] exI[of _ bk] exI[of _ pre] exI[of _ mid]) simp
next
  case (Cons y ys)
  from Cons.prems(4) obtain k where k: "f y = Inr k" by auto
  from Cons.prems(4) have rest: "\<forall>y\<in>set ys. \<exists>k. f y = Inr k" by simp
  show ?case
  proof (cases "k < bk")
    case True
    have p: "\<forall>z\<in>set (pre @ best # mid). \<exists>j. f z = Inr j \<and> k < j"
      using Cons.prems(1-3) True by fastforce
    have m: "\<forall>z\<in>set ([]::'a list). \<exists>j. f z = Inr j \<and> k \<le> j" by simp
    from Cons.IH[OF k p m rest] True k show ?thesis by simp
  next
    case False
    have m: "\<forall>z\<in>set (mid @ [y]). \<exists>j. f z = Inr j \<and> bk \<le> j"
      using Cons.prems(3) k False by auto
    from Cons.IH[OF Cons.prems(1,2) m rest] False k show ?thesis by simp
  qed
qed

lemma py_min_first_minimum:
  assumes "xs \<noteq> []" "\<forall>y\<in>set xs. \<exists>k. f y = Inr k"
  shows "\<exists>r kr pre post. py_min f xs = Inr r \<and> f r = Inr kr \<and> xs = pre @ r # post \<and>
           (\<forall>y\<in>set pre. \<exists>k. f y = Inr k \<and> kr < k) \<and>
           (\<forall>y\<in>set post. \<exists>k. f y = Inr k \<and> kr \<le> k)"
proof -
  from assms(1) obtain x rest where xs: "xs = x # rest" by (cases xs) auto
  with assms(2) obtain k where k: "f x = Inr k" by auto
  have "\<forall>y\<in>set ([]::'a list). \<exists>j. f y = Inr j \<and> k < j"
       "\<forall>y\<in>set ([]::'a list). \<exists>j. f y = Inr j \<and> k \<le> j" by simp_all
  from min_loop_split[OF k this] assms(2) xs k show ?thesis by simp
qed

lemma utilization_loop_live:
  "live_path g p \<Longrightarrow> \<exists>u. utilization_loop g tot p = Inr u"
proof (induction p arbitrary: tot rule: induct_list012)
  case 1 then show ?case by simp
next
  case (2 v) then show ?case by simp
next
  case (3 u v rest)
  then show ?case by (auto simp: live_link_def split: option.splits)
qed

lemma shortest_path_utilization:
  "shortest_path (topology s) src dst p \<Longrightarrow> \<exists>u. path_utilization s p = Inr u"
  unfolding shortest_path_def connects_def path_utilization_def
  using utilization_loop_live by blast

text \<open>On a path of the live subgraph the code's running total is the total utilization.\<close>

lemma total_utilization_Cons2:
  "total_utilization g (u # v # rest) = link_utilization g u v + total_utilization g (v # rest)"
  by (simp add: total_utilization_def)

lemma utilization_loop_total:
  "live_path g p \<Longrightarrow> utilization_loop g tot p = Inr (tot + total_utilization g p)"
proof (induction p arbitrary: tot rule: induct_list012)
  case 1 then show ?case by simp
next
  case (2 v) then show ?case by (simp add: total_utilization_def)
next
  case (3 u v rest)
  from 3(3) obtain d where d: "get_link (g_links g) u v = Some d" and lp: "live_path g (v # rest)"
    by (auto simp: live_link_def split: option.splits)
  from 3(2)[OF lp, of "tot + utilization d"] d show ?case
    by (simp add: total_utilization_Cons2 link_utilization_def)
qed

lemma path_utilization_total:
  "shortest_path (topology s) src dst p \<Longrightarrow>
   path_utilization s p = Inr (total_utilization (topology s) p)"
  unfolding shortest_path_def connects_def path_utilization_def
  using utilization_loop_total[of "topology s" p 0] by simp

lemma min_loop_mem: "min_loop f best bk ys = Inr r \<Longrightarrow> r = best \<or> r \<in> set ys"
  by (induction ys arbitrary: best bk) (auto split: sum.splits if_splits)

lemma py_min_mem: "py_min f xs = Inr r \<Longrightarrow> r \<in> set xs"
  by (cases xs) (auto split: sum.splits dest: min_loop_mem)

lemma compute_paths_subset:
  assumes "nx_all_shortest_paths (topology s) (available_edges (topology s)) src dst = Inr all_paths"
     "compute_paths s src dst priority = Inr ps"
  shows "set ps \<subseteq> set all_paths"
proof (cases "priority > 0")
  case False
  with assms show ?thesis by (auto simp: compute_paths_def dest: in_set_takeD)
next
  case True
  with assms show ?thesis
    by (auto simp: compute_paths_def split: sum.splits error.splits dest: py_min_mem)
qed

lemma compute_paths_shortest:
  assumes wf: "wf_links (g_links (topology s))"
    and cp: "compute_paths s src dst priority = Inr ps" and p: "p \<in> set ps"
  shows "shortest_path (topology s) src dst p"
proof -
  from all_shortest_paths_spec[OF wf, of src dst]
  consider "nx_all_shortest_paths (topology s) (available_edges (topology s)) src dst = Inl NodeNotFound"
    | "nx_all_shortest_paths (topology s) (available_edges (topology s)) src dst = Inl NetworkXNoPath"
    | all_paths where "nx_all_shortest_paths (topology s) (available_edges (topology s)) src dst = Inr all_paths"
        "set all_paths = {p. shortest_path (topology s) src dst p}"
    by blast
  then show ?thesis
  proof cases
    case 1 with cp show ?thesis by (simp add: compute_paths_def)
  next
    case 2 with cp p show ?thesis by (simp add: compute_paths_def)
  next
    case 3
    from compute_paths_subset[OF 3(1) cp] p 3(2) show ?thesis by blast
  qed
qed

text \<open>The search does not look at utilizations.\<close>

lemma nbrs_with_utilization:
  "nbrs (map (\<lambda>(e, d). (e, d\<lparr>utilization := u e\<rparr>)) ls) v = nbrs ls v"
proof (induction ls)
  case Nil then show ?case by simp
next
  case (Cons x ls)
  obtain a b d where "x = ((a, b), d)" by (cases x) auto
  with Cons show ?case by auto
qed

lemma available_edges_with_utilization:
  "available_edges (with_utilization u g) = available_edges g"
proof -
  have "map fst (filter (\<lambda>(e, d). available d) (map (\<lambda>(e, d). (e, d\<lparr>utilization := u e\<rparr>)) ls))
      = map fst (filter (\<lambda>(e, d). available d) ls)" for ls :: links
    by (induction ls) auto
  then show ?thesis by (simp add: available_edges_def nx_edges_def with_utilization_def)
qed

lemma sub_adj_with_utilization: "sub_adj (with_utilization u g) es v = sub_adj g es v"
  by (simp add: sub_adj_def with_utilization_def nbrs_with_utilization)

lemma predecessor_loop_cong:
  "(\<And>v. sub_adj g' es v = sub_adj g es v) \<Longrightarrow>
   predecessor_loop g' es level st = predecessor_loop g es level st"
proof (induction g es level st rule: predecessor_loop.induct)
  case (1 g es level tab nextlevel)
  have adj: "sub_adj g' es = sub_adj g es" using 1(2) by (intro ext)
  show ?case
  proof (cases "nextlevel = []")
    case True
    then show ?thesis
      by (simp add: predecessor_loop.simps[of g es level tab "[]"]
                    predecessor_loop.simps[of g' es level tab "[]"])
  next
    case False
    from 1(1)[OF False 1(2)] False adj show ?thesis
      by (simp add: predecessor_loop.simps[of g es level tab nextlevel]
                    predecessor_loop.simps[of g' es level tab nextlevel])
  qed
qed

lemma all_shortest_paths_with_utilization:
  "nx_all_shortest_paths (with_utilization u g) (available_edges (with_utilization u g)) s t =
   nx_all_shortest_paths g (available_edges g) s t"
  unfolding nx_all_shortest_paths_def nx_predecessor_def available_edges_with_utilization
  using predecessor_loop_cong[of "with_utilization u g" "available_edges g" g,
          OF sub_adj_with_utilization]
  by simp

lemma compute_paths_with_utilization:
  "compute_paths (s\<lparr>topology := with_utilization u (topology s)\<rparr>) src dst 0 =
   compute_paths s src dst 0"
  by (simp add: compute_paths_def all_shortest_paths_with_utilization
           split: sum.splits error.splits)

section \<open>Topologies the controller can reach\<close>

text \<open>Every operation keeps one entry per undirected link.\<close>

lemma get_link_append:
  "get_link (ls @ ms) u v = (case get_link ls u v of None \<Rightarrow> get_link ms u v | Some d \<Rightarrow> Some d)"
  by (induction ls u v rule: get_link.induct) auto

lemma get_link_upd_link:
  "get_link (upd_link f u v ls) a b =
     (if (a, b) = (u, v) \<or> (a, b) = (v, u) then map_option f (get_link ls a b)
      else get_link ls a b)"
proof (induction ls)
  case Nil then show ?case by simp
next
  case (Cons x ls)
  obtain e d where x: "x = (e, d)" by (cases x)
  show ?case
  proof (cases "e = (u, v) \<or> e = (v, u)")
    case True
    then show ?thesis unfolding x by (cases "e = (a, b) \<or> e = (b, a)") auto
  next
    case False
    then show ?thesis unfolding x using Cons by (cases "e = (a, b) \<or> e = (b, a)") auto
  qed
qed

lemma get_link_upd_link_None:
  "get_link (upd_link f u v ls) a b = None \<longleftrightarrow> get_link ls a b = None"
  by (simp add: get_link_upd_link)

lemma wf_links_append:
  "wf_links ls \<Longrightarrow> get_link ls u v = None \<Longrightarrow> wf_links (ls @ [((u, v), d)])"
proof (induction ls)
  case Nil then show ?case by simp
next
  case (Cons x ls)
  obtain e d0 where x: "x = (e, d0)" by (cases x)
  with Cons.prems have "e \<noteq> (u, v)" "e \<noteq> (v, u)" by (auto split: if_splits)
  then have "(fst e, snd e) \<noteq> (u, v)" "(fst e, snd e) \<noteq> (v, u)" by auto
  with Cons x show ?case by (auto simp: get_link_append split: if_splits)
qed

lemma wf_links_upd_link: "wf_links ls \<Longrightarrow> wf_links (upd_link f u v ls)"
  by (induction f u v ls rule: upd_link.induct) (auto simp: get_link_upd_link_None)

lemma nbrs_upd_link: "nbrs (upd_link f u v ls) w = nbrs ls w"
proof (induction ls)
  case Nil then show ?case by simp
next
  case (Cons x ls)
  obtain a b d where "x = ((a, b), d)" by (cases x) auto
  with Cons show ?case by auto
qed

lemma wf_nx_add_edge: "wf_links (g_links g) \<Longrightarrow> wf_links (g_links (nx_add_edge g u v bw))"
  by (auto simp: nx_add_edge_def Let_def wf_links_append wf_links_upd_link split: option.splits)

lemma wf_set_available: "wf_links (g_links g) \<Longrightarrow> wf_links (g_links (set_available b g u v))"
  by (simp add: set_available_def wf_links_upd_link)

lemma wf_add_utilization:
  "wf_links (g_links g) \<Longrightarrow> wf_links (g_links (snd (add_utilization g bw p)))"
  by (induction g bw p rule: add_utilization.induct)
     (auto simp: wf_links_upd_link split: option.splits)

lemma topology_install_flow [simp]: "topology (install_flow s sw f a) = topology s"
  by (simp add: install_flow_def)

lemma active_flows_install_flow [simp]: "active_flows (install_flow s sw f a) = active_flows s"
  by (simp add: install_flow_def)

lemma topology_install_path [simp]: "topology (install_path f p s) = topology s"
proof -
  have "topology (fold (\<lambda>sw s. install_flow s sw f a) sws s) = topology s" for sws a
    by (induction sws arbitrary: s) auto
  then show ?thesis by (simp add: install_path_def)
qed

lemma active_flows_install_path [simp]: "active_flows (install_path f p s) = active_flows s"
proof -
  have "active_flows (fold (\<lambda>sw s. install_flow s sw f a) sws s) = active_flows s" for sws a
    by (induction sws arbitrary: s) auto
  then show ?thesis by (simp add: install_path_def)
qed

lemma topology_inject_flow:
  "topology (snd (inject_flow s src dst priority bw)) = topology s \<or>
   (\<exists>p. topology (snd (inject_flow s src dst priority bw)) = snd (add_utilization (topology s) bw p))"
proof (cases "compute_paths s src dst priority")
  case (Inl e)
  then show ?thesis by (simp add: inject_flow_def)
next
  case (Inr ps)
  show ?thesis
  proof (cases ps)
    case Nil
    with Inr show ?thesis by (simp add: inject_flow_def)
  next
    case (Cons primary others)
    obtain r g where au: "add_utilization (topology s) bw primary = (r, g)"
      by (cases "add_utilization (topology s) bw primary")
    have "topology (snd (inject_flow s src dst priority bw)) = g"
      using Inr Cons au
      by (cases r) (auto simp: inject_flow_def Let_def split: option.splits)
    with au show ?thesis by (metis snd_conv)
  qed
qed

lemma wf_apply_op:
  "wf_links (g_links (topology s)) \<Longrightarrow> wf_links (g_links (topology (apply_op x s)))"
proof (cases x)
  case (InjectFlow src dst priority bw)
  assume wf: "wf_links (g_links (topology s))"
  from topology_inject_flow[of s src dst priority bw] wf wf_add_utilization[OF wf]
  show ?thesis unfolding InjectFlow by auto
qed (auto simp: add_node_def nx_add_node_def add_link_def wf_nx_add_edge remove_link_def
      restore_link_def wf_set_available)

lemma wf_fold_apply_op:
  "wf_links (g_links (topology s)) \<Longrightarrow> wf_links (g_links (topology (fold apply_op ops s)))"
  by (induction ops arbitrary: s) (auto simp: wf_apply_op)

lemma wf_run: "wf_links (g_links (topology (run ops)))"
  unfolding run_def by (rule wf_fold_apply_op) (simp add: init_def)

section \<open>Flow injection and bookkeeping\<close>

lemma no_connection_from_search:
  assumes wf: "wf_links (g_links g)"
    and "nx_all_shortest_paths g (available_edges g) s t = Inl e"
  shows "\<not> connects g s t p"
proof
  assume c: "connects g s t p"
  then have "in_live g s" using walk_live_path[OF wf, of s p] by (auto simp: connects_def)
  with all_shortest_paths_spec[OF wf, of s t] c assms(2) show False by auto
qed

lemma get_link_add_edge:
  "get_link (g_links (nx_add_edge g u v bw)) u v =
     Some \<lparr>bandwidth = bw, utilization = 0, available = True\<rparr>"
  by (auto simp: nx_add_edge_def Let_def get_link_append get_link_upd_link split: option.splits)

text \<open>Flow names with different numbers are different strings.\<close>

lemma of_char_digit: "n < 10 \<Longrightarrow> of_char (digit n) = (48 + n :: nat)"
  by (simp add: digit_def)

lemma digit_not_dash: "n < 10 \<Longrightarrow> digit n \<noteq> CHR ''-''"
proof
  assume "n < 10" "digit n = CHR ''-''"
  then have "(of_char (digit n) :: nat) = of_char (CHR ''-'')" by simp
  with \<open>n < 10\<close> show False by (simp add: of_char_digit)
qed

lemma str_nat_no_dash: "c \<in> set (str_nat n) \<Longrightarrow> c \<noteq> CHR ''-''"
proof (induction n rule: str_nat.induct)
  case (1 n)
  show ?case
  proof (cases "n < 10")
    case True
    with 1(2) show ?thesis using digit_not_dash[of n] by (simp add: str_nat.simps[of n])
  next
    case False
    with 1 show ?thesis using digit_not_dash[of "n mod 10"]
      by (auto simp: str_nat.simps[of n])
  qed
qed

lemma nat_of_str_nat: "nat_of_str (str_nat n) = n"
proof (induction n rule: str_nat.induct)
  case (1 n)
  show ?case
  proof (cases "n < 10")
    case True
    then show ?thesis by (simp add: str_nat.simps[of n] nat_of_str_def of_char_digit)
  next
    case False
    with 1 have "nat_of_str (str_nat (n div 10)) = n div 10" by simp
    with False show ?thesis
      by (simp add: str_nat.simps[of n] nat_of_str_def of_char_digit)
  qed
qed

lemma str_nat_inj: "str_nat i = str_nat j \<Longrightarrow> i = j"
  by (metis nat_of_str_nat)

lemma takeWhile_until:
  "(\<And>c. c \<in> set xs \<Longrightarrow> P c) \<Longrightarrow> \<not> P y \<Longrightarrow> takeWhile P (xs @ y # ys) = xs"
  by (induction xs) auto

lemma last_field_flow_name: "last_field (flow_name a b n) = str_nat n"
proof -
  have "rev (flow_name a b n) = rev (str_nat n) @ CHR ''-'' # rev (a @ ''-'' @ b)"
    by (simp add: flow_name_def)
  moreover have "takeWhile (\<lambda>c. c \<noteq> CHR ''-'') (rev (str_nat n) @ CHR ''-'' # rev (a @ ''-'' @ b))
      = rev (str_nat n)"
    by (rule takeWhile_until) (use str_nat_no_dash in auto)
  ultimately show ?thesis by (simp add: last_field_def)
qed

lemma flow_name_index: "flow_name a b i = flow_name c d j \<Longrightarrow> i = j"
  using last_field_flow_name[of a b i] last_field_flow_name[of c d j] str_nat_inj by simp

text \<open>What a call of \<open>inject_flow\<close> can do to the controller.\<close>

lemma flow_tables_fold_install:
  "flow_tables (fold (\<lambda>sw s. install_flow s sw fid a) sws s) sw fl =
     (if fl = fid \<and> sw \<in> set sws then Some a else flow_tables s sw fl)"
  by (induction sws arbitrary: s) (auto simp: install_flow_def)

lemma flow_tables_install_path:
  "flow_tables (install_path fid p s) sw fl =
     (if fl = fid \<and> sw \<in> set (butlast (tl p)) then Some \<lparr>act = ''forward'', act_path = p\<rparr>
      else flow_tables s sw fl)"
  by (simp add: install_path_def flow_tables_fold_install)

lemma inject_flow_outcomes:
  "(\<exists>e g. inject_flow s src dst priority bw = (Inl e, s\<lparr>topology := g\<rparr>)) \<or>
   inject_flow s src dst priority bw = (Inr None, s\<lparr>stdout := stdout s @ [''No available path!'']\<rparr>) \<or>
   (\<exists>primary others s'.
      compute_paths s src dst priority = Inr (primary # others) \<and>
      inject_flow s src dst priority bw = (Inr (Some (flow_name src dst (length (active_flows s)))), s') \<and>
      active_flows s' = active_flows s @ [new_flow s src dst priority bw primary others] \<and>
      (\<forall>sw fl. fl \<noteq> flow_name src dst (length (active_flows s)) \<longrightarrow>
                flow_tables s' sw fl = flow_tables s sw fl))"
proof (cases "compute_paths s src dst priority")
  case (Inl e)
  then have "inject_flow s src dst priority bw = (Inl e, s\<lparr>topology := topology s\<rparr>)"
    by (simp add: inject_flow_def)
  then show ?thesis by blast
next
  case (Inr ps)
  show ?thesis
  proof (cases ps)
    case Nil
    with Inr show ?thesis by (simp add: inject_flow_def)
  next
    case (Cons primary others)
    obtain r g where au: "add_utilization (topology s) bw primary = (r, g)"
      by (cases "add_utilization (topology s) bw primary")
    show ?thesis
    proof (cases r)
      case (Some e)
      with Inr Cons au have "inject_flow s src dst priority bw = (Inl e, s\<lparr>topology := g\<rparr>)"
        by (simp add: inject_flow_def Let_def)
      then show ?thesis by blast
    next
      case None
      let ?fid = "flow_name src dst (length (active_flows s))"
      obtain res s' where r: "inject_flow s src dst priority bw = (res, s')"
        by (cases "inject_flow s src dst priority bw")
      have bk: "length (primary # others) > 1 \<longleftrightarrow> others \<noteq> []" by (cases others) auto
      have hd1: "others \<noteq> [] \<Longrightarrow> (primary # others) ! 1 = hd others" by (cases others) auto
      from r Inr Cons au None have res: "res = Inr (Some ?fid)"
        by (auto simp: inject_flow_def Let_def split: option.splits if_splits)
      from r Inr Cons au None
      have af: "active_flows s' = active_flows s @ [new_flow s src dst priority bw primary others]"
        by (auto simp: inject_flow_def Let_def new_flow_def hd_conv_nth
                 split: option.splits if_splits)
      have ft: "flow_tables s' sw fl = flow_tables s sw fl" if "fl \<noteq> ?fid" for sw fl
        using r Inr Cons au None that
        by (auto simp: inject_flow_def Let_def flow_tables_install_path
                 split: option.splits if_splits)
      from Inr Cons r res af ft show ?thesis by blast
    qed
  qed
qed

lemma build_paths_ends:
  "p \<in> set (build_paths k tab s t) \<Longrightarrow> p \<noteq> [] \<and> hd p = s \<and> last p = t"
proof (induction k arbitrary: t p)
  case 0 then show ?case by (auto split: if_splits)
next
  case (Suc k)
  from Suc.prems consider "p = [t]" "t = s"
    | v q where "q \<in> set (build_paths k tab s v)" "p = q @ [t]"
    by (auto split: if_splits)
  then show ?case
  proof cases
    case 1 then show ?thesis by simp
  next
    case 2
    from Suc.IH[OF 2(1)] 2(2) show ?thesis by simp
  qed
qed

lemma all_shortest_paths_ends:
  "nx_all_shortest_paths g es s t = Inr ps \<Longrightarrow> p \<in> set ps \<Longrightarrow> p \<noteq> [] \<and> hd p = s \<and> last p = t"
  by (auto simp: nx_all_shortest_paths_def split: sum.splits option.splits dest: build_paths_ends)

lemma compute_paths_ends:
  assumes "compute_paths s src dst priority = Inr ps" "p \<in> set ps"
  shows "p \<noteq> [] \<and> hd p = src \<and> last p = dst"
proof (cases "nx_all_shortest_paths (topology s) (available_edges (topology s)) src dst")
  case (Inl e)
  with assms show ?thesis by (cases e) (auto simp: compute_paths_def)
next
  case (Inr all_paths)
  from compute_paths_subset[OF Inr assms(1)] assms(2) all_shortest_paths_ends[OF Inr]
  show ?thesis by blast
qed

text \<open>From a node to itself the search yields the one-node path only.\<close>

lemma all_shortest_paths_self:
  assumes "nx_all_shortest_paths g es s s = Inr ps"
  shows "ps = [[s]]"
proof -
  from assms have ok: "node_ok es s"
    by (auto simp: nx_all_shortest_paths_def nx_predecessor_def split: if_splits)
  from nx_predecessor_done[OF ok, of g] obtain tab where
    tab: "nx_predecessor g es s = Inr tab" "bfs_done (sub_adj g es) s tab" by blast
  have "s \<in> level_set (sub_adj g es) s 0" by (simp add: level_set_0)
  from bfs_done_lookup[OF tab(2) this] obtain qs where "tab s = Some (0, qs)" by blast
  with tab(1) assms show ?thesis by (simp add: nx_all_shortest_paths_def)
qed

lemma compute_paths_self:
  assumes "compute_paths s src src priority = Inr ps" "p \<in> set ps"
  shows "p = [src]"
proof (cases "nx_all_shortest_paths (topology s) (available_edges (topology s)) src src")
  case (Inl e)
  with assms show ?thesis by (cases e) (auto simp: compute_paths_def)
next
  case (Inr all_paths)
  from compute_paths_subset[OF Inr assms(1)] assms(2) all_shortest_paths_self[OF Inr]
  show ?thesis by auto
qed

lemma ends_length:
  assumes "p \<noteq> []" "hd p \<noteq> last p"
  shows "2 \<le> length p"
proof (cases p)
  case Nil with assms(1) show ?thesis by simp
next
  case (Cons x xs)
  with assms(2) show ?thesis by (cases xs) auto
qed

lemma new_flow_shape:
  assumes "compute_paths s src dst priority = Inr (primary # others)"
  shows "flow_shape (new_flow s src dst priority bw primary others)"
proof -
  have p: "primary \<noteq> [] \<and> hd primary = src \<and> last primary = dst"
    using compute_paths_ends[OF assms, of primary] by simp
  have b: "hd others \<noteq> [] \<and> hd (hd others) = src \<and> last (hd others) = dst" if "others \<noteq> []"
    using compute_paths_ends[OF assms, of "hd others"] that by simp
  have ps: "primary = [src]" if "src = dst"
    using compute_paths_self[of s src priority "primary # others" primary] assms that by simp
  have bs: "hd others = [src]" if "src = dst" "others \<noteq> []"
    using compute_paths_self[of s src priority "primary # others" "hd others"] assms that
    by simp
  show ?thesis
    unfolding flow_shape_def new_flow_def using p b ps bs ends_length by auto
qed

lemma apply_op_flows:
  "(active_flows (apply_op x s) = active_flows s \<and>
    (\<forall>sw fl. flow_tables (apply_op x s) sw fl = flow_tables s sw fl) \<and>
    injected s [x] = 0) \<or>
   (\<exists>src dst priority bw primary others.
      compute_paths s src dst priority = Inr (primary # others) \<and>
      active_flows (apply_op x s) =
        active_flows s @ [new_flow s src dst priority bw primary others] \<and>
      (\<forall>sw fl. fl \<noteq> flow_name src dst (length (active_flows s)) \<longrightarrow>
                flow_tables (apply_op x s) sw fl = flow_tables s sw fl) \<and>
      injected s [x] = 1)"
proof (cases x)
  case (InjectFlow src dst priority bw)
  from inject_flow_outcomes[of s src dst priority bw] show ?thesis
  proof (elim disjE exE conjE)
    fix e g assume "inject_flow s src dst priority bw = (Inl e, s\<lparr>topology := g\<rparr>)"
    then show ?thesis by (simp add: InjectFlow)
  next
    assume "inject_flow s src dst priority bw =
        (Inr None, s\<lparr>stdout := stdout s @ [''No available path!'']\<rparr>)"
    then show ?thesis by (simp add: InjectFlow)
  next
    fix primary others s'
    assume a: "compute_paths s src dst priority = Inr (primary # others)"
      "inject_flow s src dst priority bw =
         (Inr (Some (flow_name src dst (length (active_flows s)))), s')"
      "active_flows s' = active_flows s @ [new_flow s src dst priority bw primary others]"
      "\<forall>sw fl. fl \<noteq> flow_name src dst (length (active_flows s)) \<longrightarrow>
                flow_tables s' sw fl = flow_tables s sw fl"
    have "injected s [x] = 1" by (simp add: InjectFlow a(2))
    moreover have "apply_op x s = s'" by (simp add: InjectFlow a(2))
    ultimately show ?thesis using a(1,3,4) by blast
  qed
qed (simp_all add: add_node_def add_link_def remove_link_def restore_link_def)

text \<open>The bookkeeping invariant holds after every sequence of operations.\<close>

lemma flows_inv_init: "flows_inv init"
  by (simp add: flows_inv_def ids_indexed_def keys_indexed_def init_def)

lemma flows_inv_apply_op:
  assumes inv: "flows_inv s"
  shows "flows_inv (apply_op x s)"
proof -
  let ?fl = "active_flows s" and ?s' = "apply_op x s"
  from apply_op_flows[of x s] show ?thesis
  proof (elim disjE exE conjE)
    assume "active_flows ?s' = ?fl" "\<forall>sw fl. flow_tables ?s' sw fl = flow_tables s sw fl"
    with inv show ?thesis by (simp add: flows_inv_def ids_indexed_def keys_indexed_def)
  next
    fix src dst priority bw primary others
    let ?nf = "new_flow s src dst priority bw primary others"
    let ?fid = "flow_name src dst (length ?fl)"
    assume cp: "compute_paths s src dst priority = Inr (primary # others)"
      and af: "active_flows ?s' = ?fl @ [?nf]"
      and ft: "\<forall>sw fl. fl \<noteq> ?fid \<longrightarrow> flow_tables ?s' sw fl = flow_tables s sw fl"
    have nf: "f_id ?nf = ?fid" "f_src ?nf = src" "f_dst ?nf = dst" by (simp_all add: new_flow_def)
    have "ids_indexed ?s'"
      unfolding ids_indexed_def
    proof (intro allI impI)
      fix i assume "i < length (active_flows ?s')"
      then consider "i < length ?fl" | "i = length ?fl" using af by fastforce
      then show "f_id (active_flows ?s' ! i) =
          flow_name (f_src (active_flows ?s' ! i)) (f_dst (active_flows ?s' ! i)) i"
      proof cases
        case 1
        with inv show ?thesis by (simp add: af nth_append flows_inv_def ids_indexed_def)
      next
        case 2
        then show ?thesis by (simp add: af nf)
      qed
    qed
    moreover have "keys_indexed ?s'"
      unfolding keys_indexed_def
    proof (intro allI impI)
      fix sw fl a assume e: "flow_tables ?s' sw fl = Some a"
      show "\<exists>i<length (active_flows ?s'). \<exists>x y. fl = flow_name x y i"
      proof (cases "fl = ?fid")
        case True
        then show ?thesis using af by auto
      next
        case False
        with ft e have "flow_tables s sw fl = Some a" by simp
        with inv obtain i x y where "i < length ?fl" "fl = flow_name x y i"
          unfolding flows_inv_def keys_indexed_def by blast
        then show ?thesis using af by (intro exI[of _ i]) auto
      qed
    qed
    moreover have "\<forall>f\<in>set (active_flows ?s'). flow_shape f"
      using inv new_flow_shape[OF cp] by (auto simp: af flows_inv_def)
    ultimately show ?thesis by (simp add: flows_inv_def)
  qed
qed

lemma flows_inv_fold: "flows_inv s \<Longrightarrow> flows_inv (fold apply_op ops s)"
  by (induction ops arbitrary: s) (auto simp: flows_inv_apply_op)

lemma flows_inv_run: "flows_inv (run ops)"
  unfolding run_def by (rule flows_inv_fold) (rule flows_inv_init)

lemma entry_kept_apply_op:
  assumes inv: "flows_inv s" and e: "flow_tables s sw fl = Some a"
  shows "flow_tables (apply_op x s) sw fl = Some a"
proof -
  from inv e obtain i u v where i: "i < length (active_flows s)" "fl = flow_name u v i"
    unfolding flows_inv_def keys_indexed_def by blast
  have "fl \<noteq> flow_name src dst (length (active_flows s))" for src dst
    using i flow_name_index[of u v i src dst "length (active_flows s)"] by auto
  with apply_op_flows[of x s] e show ?thesis by auto
qed

lemma entry_kept_fold:
  "flows_inv s \<Longrightarrow> flow_tables s sw fl = Some a \<Longrightarrow>
   flow_tables (fold apply_op ops s) sw fl = Some a"
  by (induction ops arbitrary: s) (auto simp: flows_inv_apply_op entry_kept_apply_op)

lemma injected_single:
  "injected s (x # xs) = injected s [x] + injected (apply_op x s) xs"
  by simp

lemma length_active_flows_fold:
  "length (active_flows (fold apply_op ops s)) = length (active_flows s) + injected s ops"
proof (induction ops arbitrary: s)
  case Nil then show ?case by simp
next
  case (Cons x ops)
  from apply_op_flows[of x s]
  have "length (active_flows (apply_op x s)) = length (active_flows s) + injected s [x]"
    by auto
  with Cons[of "apply_op x s"] show ?case
    unfolding injected_single[of s x ops] by simp
qed

lemma length_active_flows_run: "length (active_flows (run ops)) = injected init ops"
  unfolding run_def using length_active_flows_fold[of ops init] by (simp add: init_def)

lemma ids_indexed_distinct: "ids_indexed s \<Longrightarrow> distinct (map f_id (active_flows s))"
  unfolding ids_indexed_def distinct_conv_nth
  using flow_name_index by (metis length_map nth_map)

lemma compute_paths_priority_single:
  "priority > 0 \<Longrightarrow> compute_paths s src dst priority = Inr (primary # others) \<Longrightarrow> others = []"
  by (auto simp: compute_paths_def split: sum.splits error.splits)

text \<open>No backup path is ever recorded: a positive priority yields a single path.\<close>

lemma backup_none_apply_op:
  assumes old: "\<forall>f\<in>set (active_flows s). backup_path f = None"
  shows "\<forall>f\<in>set (active_flows (apply_op x s)). backup_path f = None"
proof -
  from apply_op_flows[of x s]
  consider "active_flows (apply_op x s) = active_flows s"
    | src dst priority bw primary others where
        "compute_paths s src dst priority = Inr (primary # others)"
        "active_flows (apply_op x s) =
           active_flows s @ [new_flow s src dst priority bw primary others]"
    by blast
  then show ?thesis
  proof cases
    case 1 with old show ?thesis by simp
  next
    case 2
    have "backup_path (new_flow s src dst priority bw primary others) = None"
      using compute_paths_priority_single[OF _ 2(1)] by (simp add: new_flow_def)
    with old show ?thesis unfolding 2(2) by simp
  qed
qed

lemma backup_none_fold:
  "\<forall>f\<in>set (active_flows s). backup_path f = None \<Longrightarrow>
   \<forall>f\<in>set (active_flows (fold apply_op ops s)). backup_path f = None"
proof (induction ops arbitrary: s)
  case Nil then show ?case by simp
next
  case (Cons x ops)
  from Cons.IH[OF backup_none_apply_op[OF Cons.prems]] show ?case by simp
qed

lemma backup_never_recorded: "f \<in> set (active_flows (run ops)) \<Longrightarrow> backup_path f = None"
  using backup_none_fold[of init ops] by (simp add: run_def init_def)

section \<open>Claims\<close>

text \<open>
  Claim C1. In every topology with one entry per link, whatever the availability flags,
  every path that \<open>compute_paths\<close> returns uses only available links: each pair of
  consecutive nodes of the path is a stored link whose \<^verbatim>\<open>available\<close> flag is true.
\<close>

theorem compute_paths_only_available_links:
  assumes "wf_links (g_links (topology s))"
    and "compute_paths s src dst priority = Inr ps"
    and "p \<in> set ps" and "Suc i < length p"
  shows "live_link (topology s) (p ! i) (p ! Suc i)"
proof -
  from compute_paths_shortest[OF assms(1-3)] have "live_path (topology s) p"
    by (simp add: shortest_path_def connects_def)
  from live_path_nth[OF this assms(4)] show ?thesis .
qed

theorem compute_paths_only_available_links_witness:
  "wf_links (g_links (topology example)) \<and>
   compute_paths example ''h1'' ''h2'' 0 =
     Inr [[''h1'', ''s1'', ''s2'', ''s4'', ''h2''], [''h1'', ''s1'', ''s3'', ''s4'', ''h2'']] \<and>
   live_link (topology example) ''s1'' ''s3''"
proof -
  have a: "wf_links (g_links (topology example))" by code_simp
  have b: "compute_paths example ''h1'' ''h2'' 0 =
     Inr [[''h1'', ''s1'', ''s2'', ''s4'', ''h2''], [''h1'', ''s1'', ''s3'', ''s4'', ''h2'']]"
    by code_simp
  have c: "[''h1'', ''s1'', ''s3'', ''s4'', ''h2''] \<in>
     set [[''h1'', ''s1'', ''s2'', ''s4'', ''h2''], [''h1'', ''s1'', ''s3'', ''s4'', ''h2'']]"
    by simp
  have d: "Suc 1 < length [''h1'', ''s1'', ''s3'', ''s4'', ''h2'']" by simp
  from compute_paths_only_available_links[OF a b c d] a b show ?thesis by simp
qed

text \<open>
  Claim C2. With a positive priority and some path between the two nodes over available
  links, \<open>compute_paths\<close> returns exactly one path; it is a shortest path by hop count,
  its total utilization (the sum of the stored utilization of the links between its
  consecutive nodes, which is what \<open>path_utilization\<close> computes on it) is least among all
  shortest paths, and every shortest path that the search produced before it has a
  strictly larger total utilization.
\<close>

theorem compute_paths_priority_least_utilized:
  assumes wf: "wf_links (g_links (topology s))"
    and prio: "priority > 0"
    and ex: "connects (topology s) src dst q"
  shows "\<exists>p pre post.
           compute_paths s src dst priority = Inr [p] \<and>
           shortest_path (topology s) src dst p \<and>
           path_utilization s p = Inr (total_utilization (topology s) p) \<and>
           (\<forall>p'. shortest_path (topology s) src dst p' \<longrightarrow>
                 path_utilization s p' = Inr (total_utilization (topology s) p') \<and>
                 total_utilization (topology s) p \<le> total_utilization (topology s) p') \<and>
           nx_all_shortest_paths (topology s) (available_edges (topology s)) src dst
             = Inr (pre @ p # post) \<and>
           (\<forall>p'\<in>set pre. total_utilization (topology s) p < total_utilization (topology s) p')"
proof -
  let ?g = "topology s"
  have live: "in_live ?g src"
    using ex walk_live_path[OF wf, of src q] by (auto simp: connects_def)
  from all_shortest_paths_spec[OF wf, of src dst] ex live obtain all_paths where
    all: "nx_all_shortest_paths ?g (available_edges ?g) src dst = Inr all_paths"
      "all_paths \<noteq> []" "set all_paths = {p. shortest_path ?g src dst p}"
    by auto
  have tot: "path_utilization s y = Inr (total_utilization ?g y)" if "y \<in> set all_paths" for y
    using that all(3) path_utilization_total by blast
  then have keys: "\<forall>y\<in>set all_paths. \<exists>k. path_utilization s y = Inr k" by blast
  from py_min_first_minimum[OF all(2) keys] obtain p u pre post where
    m: "py_min (path_utilization s) all_paths = Inr p" "path_utilization s p = Inr u"
       "all_paths = pre @ p # post"
       "\<forall>y\<in>set pre. \<exists>k. path_utilization s y = Inr k \<and> u < k"
       "\<forall>y\<in>set post. \<exists>k. path_utilization s y = Inr k \<and> u \<le> k"
    by blast
  have u: "u = total_utilization ?g p" using tot[of p] m(2,3) by simp
  have cp: "compute_paths s src dst priority = Inr [p]"
    using all(1) m(1) prio by (simp add: compute_paths_def)
  have sp: "shortest_path ?g src dst p" using all(3) m(3) by auto
  have before: "total_utilization ?g p < total_utilization ?g y" if "y \<in> set pre" for y
  proof -
    from that m(4) obtain k where "path_utilization s y = Inr k" "u < k" by blast
    moreover from that m(3) have "y \<in> set all_paths" by simp
    ultimately show ?thesis using tot[of y] u by simp
  qed
  have after: "total_utilization ?g p \<le> total_utilization ?g y" if "y \<in> set post" for y
  proof -
    from that m(5) obtain k where "path_utilization s y = Inr k" "u \<le> k" by blast
    moreover from that m(3) have "y \<in> set all_paths" by simp
    ultimately show ?thesis using tot[of y] u by simp
  qed
  have least: "path_utilization s p' = Inr (total_utilization ?g p') \<and>
               total_utilization ?g p \<le> total_utilization ?g p'"
    if "shortest_path ?g src dst p'" for p'
  proof -
    from that all(3) have mem: "p' \<in> set all_paths" by simp
    with m(3) have "p' \<in> set pre \<or> p' = p \<or> p' \<in> set post" by auto
    then have "total_utilization ?g p \<le> total_utilization ?g p'"
      using before[of p'] after[of p'] by fastforce
    with tot[OF mem] show ?thesis by simp
  qed
  have pu: "path_utilization s p = Inr (total_utilization ?g p)" using m(2) u by simp
  from cp sp pu least all(1) m(3) before show ?thesis by blast
qed

theorem compute_paths_priority_least_utilized_witness:
  "compute_paths (run session) ''h1'' ''h2'' 1 = Inr [[''h1'', ''s1'', ''s3'', ''s4'', ''h2'']] \<and>
   total_utilization (topology (run session)) [''h1'', ''s1'', ''s3'', ''s4'', ''h2''] = 40 \<and>
   total_utilization (topology (run session)) [''h1'', ''s1'', ''s2'', ''s4'', ''h2''] = 50 \<and>
   path_utilization (run session) [''h1'', ''s1'', ''s3'', ''s4'', ''h2''] = Inr 40 \<and>
   total_utilization (topology (run session)) [''h1'', ''s1'', ''s3'', ''s4'', ''h2'']
     \<le> total_utilization (topology (run session)) [''h1'', ''s1'', ''s2'', ''s4'', ''h2'']"
proof -
  let ?s = "run session"
  have a: "wf_links (g_links (topology ?s))" by code_simp
  have b: "(0::int) < 1" by simp
  have c: "connects (topology ?s) ''h1'' ''h2'' [''h1'', ''s1'', ''s2'', ''s4'', ''h2'']"
    by code_simp
  have cp: "compute_paths ?s ''h1'' ''h2'' 1 = Inr [[''h1'', ''s1'', ''s3'', ''s4'', ''h2'']]"
    by code_simp
  have cp0: "compute_paths ?s ''h1'' ''h2'' 0 =
      Inr [[''h1'', ''s1'', ''s2'', ''s4'', ''h2''], [''h1'', ''s1'', ''s3'', ''s4'', ''h2'']]"
    by code_simp
  have sp: "shortest_path (topology ?s) ''h1'' ''h2'' [''h1'', ''s1'', ''s2'', ''s4'', ''h2'']"
    by (rule compute_paths_shortest[OF a cp0]) simp
  have t3: "total_utilization (topology ?s) [''h1'', ''s1'', ''s3'', ''s4'', ''h2''] = 40"
    by code_simp
  have t2: "total_utilization (topology ?s) [''h1'', ''s1'', ''s2'', ''s4'', ''h2''] = 50"
    by code_simp
  from compute_paths_priority_least_utilized[OF a b c] obtain p where
    p: "compute_paths ?s ''h1'' ''h2'' 1 = Inr [p]"
       "path_utilization ?s p = Inr (total_utilization (topology ?s) p)"
       "\<forall>p'. shortest_path (topology ?s) ''h1'' ''h2'' p' \<longrightarrow>
          total_utilization (topology ?s) p \<le> total_utilization (topology ?s) p'"
    by blast
  from p(1) cp have eq: "p = [''h1'', ''s1'', ''s3'', ''s4'', ''h2'']" by simp
  from p(3) sp have le: "total_utilization (topology ?s) p
      \<le> total_utilization (topology ?s) [''h1'', ''s1'', ''s2'', ''s4'', ''h2'']" by blast
  from p(2) le t3 t2 cp show ?thesis unfolding eq by simp
qed

text \<open>
  Claim C3. With priority 0, \<open>compute_paths\<close> returns at most two paths, each a
  shortest path by hop count over available links, and they are the first two paths of
  the search in the order of the search (no path when the search finds none). The only
  exception it lets through is \<^verbatim>\<open>NodeNotFound\<close>, for a source that is on no available link.
\<close>

theorem compute_paths_load_balancing:
  assumes wf: "wf_links (g_links (topology s))"
  shows "(case compute_paths s src dst 0 of
           Inl e \<Rightarrow> e = NodeNotFound \<and> \<not> in_live (topology s) src
         | Inr ps \<Rightarrow>
             length ps \<le> 2 \<and> (\<forall>p\<in>set ps. shortest_path (topology s) src dst p) \<and>
             ps = (case nx_all_shortest_paths (topology s) (available_edges (topology s)) src dst of
                     Inl e \<Rightarrow> [] | Inr all_paths \<Rightarrow> take 2 all_paths)) \<and>
         (\<forall>u. compute_paths (s\<lparr>topology := with_utilization u (topology s)\<rparr>) src dst 0 =
              compute_paths s src dst 0)"
proof -
  have "case compute_paths s src dst 0 of
           Inl e \<Rightarrow> e = NodeNotFound \<and> \<not> in_live (topology s) src
         | Inr ps \<Rightarrow>
             length ps \<le> 2 \<and> (\<forall>p\<in>set ps. shortest_path (topology s) src dst p) \<and>
             ps = (case nx_all_shortest_paths (topology s) (available_edges (topology s)) src dst of
                     Inl e \<Rightarrow> [] | Inr all_paths \<Rightarrow> take 2 all_paths)"
  proof (cases "compute_paths s src dst 0")
    case (Inl e)
    with all_shortest_paths_spec[OF wf, of src dst] show ?thesis
      by (auto simp: compute_paths_def split: sum.splits error.splits)
  next
    case (Inr ps)
    have "length ps \<le> 2" using Inr by (auto simp: compute_paths_def split: sum.splits error.splits)
    moreover have "\<forall>p\<in>set ps. shortest_path (topology s) src dst p"
      using compute_paths_shortest[OF wf Inr] by blast
    moreover have "ps = (case nx_all_shortest_paths (topology s) (available_edges (topology s)) src dst of
                       Inl e \<Rightarrow> [] | Inr all_paths \<Rightarrow> take 2 all_paths)"
      using Inr by (auto simp: compute_paths_def split: sum.splits error.splits)
    ultimately show ?thesis using Inr by simp
  qed
  then show ?thesis using compute_paths_with_utilization by blast
qed

theorem compute_paths_load_balancing_witness:
  "wf_links (g_links (topology example)) \<and>
   compute_paths example ''h1'' ''h2'' 0 =
     Inr [[''h1'', ''s1'', ''s2'', ''s4'', ''h2''], [''h1'', ''s1'', ''s3'', ''s4'', ''h2'']] \<and>
   shortest_path (topology example) ''h1'' ''h2'' [''h1'', ''s1'', ''s3'', ''s4'', ''h2''] \<and>
   compute_paths (example\<lparr>topology := with_utilization (\<lambda>e. 7) (topology example)\<rparr>)
      ''h1'' ''h2'' 0 = compute_paths example ''h1'' ''h2'' 0"
proof -
  have a: "wf_links (g_links (topology example))" by code_simp
  have b: "compute_paths example ''h1'' ''h2'' 0 =
     Inr [[''h1'', ''s1'', ''s2'', ''s4'', ''h2''], [''h1'', ''s1'', ''s3'', ''s4'', ''h2'']]"
    by code_simp
  from compute_paths_load_balancing[OF a, of "''h1''" "''h2''"] a b show ?thesis by simp
qed

text \<open>
  Claim C4 (the code departs from it). In the program's own topology there are two
  disjoint shortest paths from \<open>h1\<close> to \<open>h2\<close>. Injecting a flow of priority 2 succeeds,
  but \<open>compute_paths\<close> hands back a single path for every positive priority, so no backup
  path is recorded and the interior switch \<open>s3\<close> of the second path gets no entry for the
  new flow.
\<close>

theorem inject_flow_critical_without_backup:
  "compute_paths example ''h1'' ''h2'' 0 =
     Inr [[''h1'', ''s1'', ''s2'', ''s4'', ''h2''], [''h1'', ''s1'', ''s3'', ''s4'', ''h2'']] \<and>
   fst (inject_flow example ''h1'' ''h2'' 2 10) = Inr (Some ''h1-h2-0'') \<and>
   map primary_path (active_flows (snd (inject_flow example ''h1'' ''h2'' 2 10))) =
     [[''h1'', ''s1'', ''s2'', ''s4'', ''h2'']] \<and>
   map backup_path (active_flows (snd (inject_flow example ''h1'' ''h2'' 2 10))) = [None] \<and>
   flow_tables (snd (inject_flow example ''h1'' ''h2'' 2 10)) ''s3'' ''h1-h2-0'' = None \<and>
   map (\<lambda>(e, d). (e, utilization d))
       (g_links (topology (snd (inject_flow example ''h1'' ''h2'' 2 10)))) =
     [((''s1'', ''s2''), 10), ((''s1'', ''s3''), 0), ((''s2'', ''s4''), 10),
      ((''s3'', ''s4''), 0), ((''h1'', ''s1''), 10), ((''h2'', ''s4''), 10)]"
  by code_simp

text \<open>
  Claim C5. When no path over available links joins the two nodes, \<open>inject_flow\<close> leaves
  the topology (and with it every utilization), the flow tables and the list of active
  flows as they were and returns no flow identifier: it prints its message and returns
  \<^verbatim>\<open>None\<close> when the source is on some available link, and the search's \<^verbatim>\<open>NodeNotFound\<close>
  leaves the call otherwise.
\<close>

theorem inject_flow_no_path:
  assumes wf: "wf_links (g_links (topology s))"
    and nopath: "\<forall>p. \<not> connects (topology s) src dst p"
  shows "inject_flow s src dst priority bw =
           (if in_live (topology s) src
            then (Inr None, s\<lparr>stdout := stdout s @ [''No available path!'']\<rparr>)
            else (Inl NodeNotFound, s)) \<and>
         topology (snd (inject_flow s src dst priority bw)) = topology s \<and>
         flow_tables (snd (inject_flow s src dst priority bw)) = flow_tables s \<and>
         active_flows (snd (inject_flow s src dst priority bw)) = active_flows s \<and>
         (\<forall>flow_id. fst (inject_flow s src dst priority bw) \<noteq> Inr (Some flow_id))"
proof -
  let ?g = "topology s"
  have no: "\<not> shortest_path ?g src dst p" for p
    using nopath by (simp add: shortest_path_def)
  from all_shortest_paths_spec[OF wf, of src dst]
  consider "\<not> in_live ?g src" "nx_all_shortest_paths ?g (available_edges ?g) src dst = Inl NodeNotFound"
    | "in_live ?g src" "nx_all_shortest_paths ?g (available_edges ?g) src dst = Inl NetworkXNoPath"
    | ps where "ps \<noteq> []" "set ps = {p. shortest_path ?g src dst p}"
    by blast
  then have "inject_flow s src dst priority bw =
           (if in_live ?g src
            then (Inr None, s\<lparr>stdout := stdout s @ [''No available path!'']\<rparr>)
            else (Inl NodeNotFound, s))"
  proof cases
    case 1
    then show ?thesis by (simp add: inject_flow_def compute_paths_def)
  next
    case 2
    then show ?thesis by (simp add: inject_flow_def compute_paths_def)
  next
    case 3
    then obtain p where "p \<in> set ps" by (cases ps) auto
    with 3(2) no show ?thesis by blast
  qed
  then show ?thesis by simp
qed

theorem inject_flow_no_path_witness:
  "inject_flow (remove_link example ''h2'' ''s4'') ''h1'' ''h2'' 0 10 =
     (Inr None, (remove_link example ''h2'' ''s4'')
        \<lparr>stdout := stdout (remove_link example ''h2'' ''s4'') @ [''No available path!'']\<rparr>) \<and>
   topology (snd (inject_flow (remove_link example ''h2'' ''s4'') ''h1'' ''h2'' 0 10)) =
     topology (remove_link example ''h2'' ''s4'')"
proof -
  let ?s = "remove_link example ''h2'' ''s4''"
  have a: "wf_links (g_links (topology ?s))" by code_simp
  have "nx_all_shortest_paths (topology ?s) (available_edges (topology ?s)) ''h1'' ''h2''
          = Inl NetworkXNoPath" by code_simp
  from no_connection_from_search[OF a this]
  have b: "\<forall>p. \<not> connects (topology ?s) ''h1'' ''h2'' p" by blast
  have c: "in_live (topology ?s) ''h1''" by code_simp
  from inject_flow_no_path[OF a b, of 0 10] c show ?thesis by simp
qed

text \<open>
  Claim C6 (the code departs from it). A source that is on no available link, because its
  only link has failed or because it was never added, makes \<open>compute_paths\<close> raise
  \<^verbatim>\<open>NodeNotFound\<close>; a destination in the same situation gives the empty list.
\<close>

theorem compute_paths_source_not_found:
  "compute_paths (remove_link example ''h1'' ''s1'') ''h1'' ''h2'' 0 = Inl NodeNotFound \<and>
   compute_paths example ''h9'' ''h2'' 0 = Inl NodeNotFound \<and>
   compute_paths (remove_link example ''h2'' ''s4'') ''h1'' ''h2'' 0 = Inr [] \<and>
   compute_paths example ''h1'' ''h9'' 0 = Inr []"
  by code_simp

text \<open>
  Claim C7. After any sequence of operations the \<open>i\<close>-th active flow is named
  \<^verbatim>\<open>{src}-{dst}-{i}\<close>, the names in the list are pairwise distinct, and the length of the
  list is the number of injections that succeeded; a further injection that succeeds
  returns the name with that number and appends one record, and one that does not succeed
  leaves the list unchanged.
\<close>

theorem flow_identifiers_numbered:
  "ids_indexed (run ops) \<and>
   distinct (map f_id (active_flows (run ops))) \<and>
   length (active_flows (run ops)) = injected init ops \<and>
   (\<forall>flow_id. fst (inject_flow (run ops) src dst priority bw) = Inr (Some flow_id) \<longrightarrow>
      flow_id = flow_name src dst (injected init ops) \<and>
      length (active_flows (snd (inject_flow (run ops) src dst priority bw)))
        = Suc (injected init ops)) \<and>
   ((\<forall>flow_id. fst (inject_flow (run ops) src dst priority bw) \<noteq> Inr (Some flow_id)) \<longrightarrow>
      active_flows (snd (inject_flow (run ops) src dst priority bw)) = active_flows (run ops))"
proof -
  have a: "ids_indexed (run ops)" using flows_inv_run[of ops] by (simp add: flows_inv_def)
  note n = length_active_flows_run[of ops]
  from inject_flow_outcomes[of "run ops" src dst priority bw] n
  have b: "\<forall>flow_id. fst (inject_flow (run ops) src dst priority bw) = Inr (Some flow_id) \<longrightarrow>
      flow_id = flow_name src dst (injected init ops) \<and>
      length (active_flows (snd (inject_flow (run ops) src dst priority bw)))
        = Suc (injected init ops)"
    by (elim disjE exE conjE) auto
  from inject_flow_outcomes[of "run ops" src dst priority bw]
  have c: "(\<forall>flow_id. fst (inject_flow (run ops) src dst priority bw) \<noteq> Inr (Some flow_id)) \<longrightarrow>
      active_flows (snd (inject_flow (run ops) src dst priority bw)) = active_flows (run ops)"
    by (elim disjE exE conjE) auto
  from a ids_indexed_distinct[OF a] n b c show ?thesis by blast
qed

theorem flow_identifiers_numbered_witness:
  "map f_id (active_flows (run session)) = [''h1-h2-0'', ''h1-h2-1''] \<and>
   distinct (map f_id (active_flows (run session))) \<and>
   injected init session = 2 \<and>
   fst (inject_flow (run session) ''h2'' ''h1'' 0 1) = Inr (Some ''h2-h1-2'') \<and>
   flow_name ''h2'' ''h1'' (injected init session) = ''h2-h1-2''"
proof -
  have a: "map f_id (active_flows (run session)) = [''h1-h2-0'', ''h1-h2-1'']" by code_simp
  have b: "fst (inject_flow (run session) ''h2'' ''h1'' 0 1) = Inr (Some ''h2-h1-2'')"
    by code_simp
  note t = flow_identifiers_numbered[of session "''h2''" "''h1''" 0 1]
  from t have d: "distinct (map f_id (active_flows (run session)))" by blast
  from t have "length (active_flows (run session)) = injected init session" by blast
  moreover from a have "length (active_flows (run session)) = 2"
    by (metis length_map length_Cons list.size(3) numeral_2_eq_2)
  ultimately have n: "injected init session = 2" by simp
  from t b have "''h2-h1-2'' = flow_name ''h2'' ''h1'' (injected init session)" by blast
  with a b d n show ?thesis by simp
qed

text \<open>
  Claim C8, as stated, fails: an endpoint that \<open>add_link\<close> has to create gets no
  \<^verbatim>\<open>type\<close> attribute.
\<close>

theorem add_link_node_type_counterexample:
  "g_nodes (topology (add_link init ''a'' ''b'' 100)) ''a'' \<noteq> Some (Some ''switch'')"
  by code_simp

text \<open>
  Claim C8, amended. After \<open>add_link s a b bw\<close> the link between \<open>a\<close> and \<open>b\<close> exists with
  bandwidth \<open>bw\<close>, utilization 0 and available, whatever was stored for the pair before;
  an endpoint that was not registered becomes a node without a type attribute, and a
  registered endpoint keeps its attribute.
\<close>

theorem add_link_creates_link:
  "get_link (g_links (topology (add_link s a b bw))) a b =
     Some \<lparr>bandwidth = bw, utilization = 0, available = True\<rparr> \<and>
   g_nodes (topology (add_link s a b bw)) a =
     (case g_nodes (topology s) a of None \<Rightarrow> Some None | Some t \<Rightarrow> Some t) \<and>
   g_nodes (topology (add_link s a b bw)) b =
     (case g_nodes (topology s) b of None \<Rightarrow> Some None | Some t \<Rightarrow> Some t)"
proof -
  have "g_nodes (nx_add_edge g a b bw) a =
          (case g_nodes g a of None \<Rightarrow> Some None | Some t \<Rightarrow> Some t)" for g
    by (auto simp: nx_add_edge_def Let_def touch_node_def split: option.splits)
  moreover have "g_nodes (nx_add_edge g a b bw) b =
          (case g_nodes g b of None \<Rightarrow> Some None | Some t \<Rightarrow> Some t)" for g
    by (auto simp: nx_add_edge_def Let_def touch_node_def split: option.splits)
  ultimately show ?thesis by (simp add: add_link_def get_link_add_edge)
qed

text \<open>
  Claim C9. An entry of a flow table that exists after a sequence of operations is still
  there, with the same action record, after any further operations.
\<close>

theorem flow_table_entries_persist:
  "flow_tables (run ops) sw fl = Some a \<Longrightarrow> flow_tables (run (ops @ later)) sw fl = Some a"
  unfolding run_def fold_append comp_def
  using entry_kept_fold[OF flows_inv_run[of ops, unfolded run_def]] by blast

theorem flow_table_entries_persist_witness:
  "flow_tables (run session) ''s2'' ''h1-h2-0'' =
     Some \<lparr>act = ''forward'', act_path = [''h1'', ''s1'', ''s2'', ''s4'', ''h2'']\<rparr> \<and>
   flow_tables (run (session @ [RemoveLink ''s1'' ''s2'', InjectFlow ''h1'' ''h2'' 2 7,
                                AddLink ''s1'' ''s2'' 50])) ''s2'' ''h1-h2-0'' =
     Some \<lparr>act = ''forward'', act_path = [''h1'', ''s1'', ''s2'', ''s4'', ''h2'']\<rparr>"
proof -
  have a: "flow_tables (run session) ''s2'' ''h1-h2-0'' =
     Some \<lparr>act = ''forward'', act_path = [''h1'', ''s1'', ''s2'', ''s4'', ''h2'']\<rparr>"
    by code_simp
  from flow_table_entries_persist[OF a] a show ?thesis by blast
qed

text \<open>
  Claim C10, as stated, fails: injecting a flow from \<open>s1\<close> to \<open>s1\<close> succeeds and records
  the one-node primary path \<open>[s1]\<close>.
\<close>

theorem active_flow_path_length_counterexample:
  "fst (inject_flow example ''s1'' ''s1'' 0 10) = Inr (Some ''s1-s1-0'') \<and>
   map primary_path (active_flows (snd (inject_flow example ''s1'' ''s1'' 0 10))) = [[''s1'']] \<and>
   length (primary_path (hd (active_flows (snd (inject_flow example ''s1'' ''s1'' 0 10))))) < 2"
  by code_simp

text \<open>
  Claim C10, amended. Every record of the list of active flows, after any sequence of
  operations, has a non-empty primary path that starts at the source and ends at the
  destination of the flow, of length at least 2 when the two differ and the one-node
  path when they are the same node; a backup path, when present, has the same shape.
\<close>

theorem active_flow_paths_shape:
  "f \<in> set (active_flows (run ops)) \<Longrightarrow> flow_shape f"
  using flows_inv_run[of ops] by (simp add: flows_inv_def)

theorem active_flow_paths_shape_witness:
  "active_flows (run self_session) ! 1 \<in> set (active_flows (run self_session)) \<and>
   flow_shape (active_flows (run self_session) ! 1) \<and>
   primary_path (active_flows (run self_session) ! 1) = [''h1'', ''s1'', ''s3'', ''s4'', ''h2''] \<and>
   active_flows (run self_session) ! 2 \<in> set (active_flows (run self_session)) \<and>
   flow_shape (active_flows (run self_session) ! 2) \<and>
   f_src (active_flows (run self_session) ! 2) = ''s1'' \<and>
   f_dst (active_flows (run self_session) ! 2) = ''s1'' \<and>
   primary_path (active_flows (run self_session) ! 2) = [''s1'']"
proof -
  have "length (active_flows (run self_session)) = 3" by code_simp
  then have a: "active_flows (run self_session) ! 1 \<in> set (active_flows (run self_session))"
    and c: "active_flows (run self_session) ! 2 \<in> set (active_flows (run self_session))"
    by simp_all
  have b: "primary_path (active_flows (run self_session) ! 1) =
      [''h1'', ''s1'', ''s3'', ''s4'', ''h2'']"
    by code_simp
  have d: "f_src (active_flows (run self_session) ! 2) = ''s1''"
          "f_dst (active_flows (run self_session) ! 2) = ''s1''"
    by code_simp+
  from active_flow_paths_shape[OF c] d
  have e: "primary_path (active_flows (run self_session) ! 2) = [''s1'']"
    by (simp add: flow_shape_def)
  from active_flow_paths_shape[OF a] active_flow_paths_shape[OF c] a b c d e
  show ?thesis by blast
qed

end
